theory Spec2Isabelle
  imports Main "HOL-Library.AList"
begin

section \<open>Metadata rows read from the databases\<close>

text \<open>
  The database manager returns metadata as lists of dictionaries, one per row of the
  engine's answer. Each kind of row is a record with the keys the replicator and the
  structure analyzer read.
\<close>

text \<open>A row of the key-column-usage view (\<open>get_table_foreign_keys\<close>).\<close>

record fk_row =
  COLUMN_NAME :: string
  REFERENCED_TABLE_NAME :: string
  REFERENCED_COLUMN_NAME :: string
  CONSTRAINT_NAME :: string

text \<open>A row of \<open>DESCRIBE table\<close> (\<open>get_table_structure\<close>).\<close>

record column_row =
  Field_col :: string
  Type_col :: string
  Null_col :: string
  Key_col :: string
  Default_col :: "string option"
  Extra_col :: string

text \<open>A row of \<open>SHOW INDEX FROM table\<close> (\<open>get_table_indexes\<close>).\<close>

record index_row =
  Key_name :: string
  Non_unique :: int
  Seq_in_index :: nat
  Column_name :: string

text \<open>Exceptions of the Python runtime that the modelled code can meet.\<close>

datatype py_error = IndexError | KeyError

section \<open>Python sets\<close>

text \<open>
  A Python set is modelled by a list without duplicates. The order in which a set is
  iterated is unspecified in Python; it is given here by a ranking of the elements that
  may depend on the set itself, so that every order of every set is covered. Iterating
  the same unmodified set twice gives the same order.
\<close>

definition set_iter :: "('a list \<Rightarrow> 'a \<Rightarrow> nat) \<Rightarrow> 'a list \<Rightarrow> 'a list" where
  "set_iter rank xs = sort_key (rank xs) xs"

section \<open>Strings\<close>

text \<open>
  SQL text is modelled as a list of characters with code points below 256. \<open>is_space\<close>
  is the whitespace of \<open>str.strip\<close> and of the pattern \<open>\s\<close> on Python strings among these
  code points: the ASCII whitespace, the separators \<open>0x1C\<close> to \<open>0x1F\<close>, the next-line
  character \<open>0x85\<close> and the no-break space \<open>0xA0\<close>.
\<close>

definition is_space :: "char \<Rightarrow> bool" where
  "is_space c = (of_char c \<in> {9, 10, 11, 12, 13, 28, 29, 30, 31, 32, 133, 160 :: nat})"

definition strip :: "string \<Rightarrow> string" where
  "strip s = rev (dropWhile is_space (rev (dropWhile is_space s)))"

definition starts_with :: "string \<Rightarrow> string \<Rightarrow> bool" where
  "starts_with p s = (take (length p) s = p)"

text \<open>\<open>needle in s\<close> for strings.\<close>

fun str_contains :: "string \<Rightarrow> string \<Rightarrow> bool" where
  "str_contains needle [] = (needle = [])"
| "str_contains needle (c # cs) = (starts_with needle (c # cs) \<or> str_contains needle cs)"

text \<open>\<open>s.split('\n')\<close> and \<open>sep.join(parts)\<close>.\<close>

fun split_lines :: "string \<Rightarrow> string list" where
  "split_lines [] = [[]]"
| "split_lines (c # cs) =
     (if c = CHR 0x0A then [] # split_lines cs
      else (case split_lines cs of
              [] \<Rightarrow> [[c]]
            | l # ls \<Rightarrow> (c # l) # ls))"

fun str_join :: "string \<Rightarrow> string list \<Rightarrow> string" where
  "str_join sep [] = []"
| "str_join sep [l] = l"
| "str_join sep (l # ls) = l @ sep @ str_join sep ls"

text \<open>\<open>str.lower\<close> on the ASCII letters.\<close>

definition lower :: "string \<Rightarrow> string" where
  "lower s =
     map (\<lambda>c. let n = of_char c :: nat in if 65 \<le> n \<and> n \<le> 90 then char_of (n + 32) else c) s"

text \<open>
  \<open>re.sub(r',\s*X', 'X', s)\<close> for a single character \<open>X\<close> that is not whitespace: the
  matches are found from left to right and do not overlap. At a comma the pattern matches
  exactly when the first character after the following run of whitespace is \<open>X\<close>.
\<close>

lemma length_dropWhile_tail:
  "dropWhile P cs = d # ds \<Longrightarrow> length ds < Suc (length cs)"
proof -
  assume "dropWhile P cs = d # ds"
  then have "length (d # ds) \<le> length cs"
    using length_dropWhile_le [of P cs] by simp
  then show ?thesis by simp
qed

function sub_comma_before :: "char \<Rightarrow> string \<Rightarrow> string" where
  "sub_comma_before x [] = []"
| "sub_comma_before x (c # cs) =
     (if c = CHR '','' then
        (case dropWhile is_space cs of
           [] \<Rightarrow> c # sub_comma_before x cs
         | d # ds \<Rightarrow> if d = x then x # sub_comma_before x ds else c # sub_comma_before x cs)
      else c # sub_comma_before x cs)"
  by pat_completeness auto
termination
  by (relation "measure (\<lambda>(x, s). length s)") (auto dest: length_dropWhile_tail)

text \<open>The statement that \<open>_create_table_without_foreign_keys\<close> sends instead.\<close>

definition strip_foreign_keys :: "string \<Rightarrow> string" where
  "strip_foreign_keys original_statement =
     (let lines = split_lines original_statement;
          filtered_lines =
            filter (\<lambda>line. \<not> (str_contains ''FOREIGN KEY'' (strip line) \<or>
                               (str_contains ''CONSTRAINT'' (strip line) \<and>
                                str_contains ''FOREIGN KEY'' (strip line)))) lines;
          modified_statement = str_join [CHR 0x0A] filtered_lines
      in sub_comma_before CHR '','' (sub_comma_before CHR '')'' modified_statement))"

section \<open>Diff engine (\<open>StructureAnalyzer\<close>)\<close>

text \<open>
  The difference records. Each is a dictionary in the source, told apart by its
  \<open>'type'\<close> entry; the constructors carry the other entries in the source's order.
\<close>

datatype structure_difference =
    Missing_column string column_row
  | Extra_column string column_row
  | Type_difference string string string
  | Null_difference string string string
  | Default_difference string "string option" "string option"
  | Column_order_difference "string list" "string list"

datatype foreign_key_difference =
    Missing_foreign_key string string string
  | Extra_foreign_key string string string

datatype index_difference =
    Missing_index string "index_row list"
  | Extra_index string "index_row list"

text \<open>
  A Python dictionary keeps its keys in insertion order, and a later value for the same
  key replaces the earlier one in place: an association list under \<open>AList.update\<close>.
  \<open>{col['Field']: col for col in rows}\<close> is then:
\<close>

definition dict_by_field :: "column_row list \<Rightarrow> (string \<times> column_row) list" where
  "dict_by_field rows = fold (\<lambda>c d. AList.update (Field_col c) c d) rows []"

text \<open>
  \<open>_compare_structures\<close>. Iterating over the keys of a dictionary and subscripting it
  with each key is written as iterating over its items.
\<close>

definition compare_structures :: "column_row list \<Rightarrow> column_row list \<Rightarrow> structure_difference list" where
  "compare_structures source target =
     (let source_cols = dict_by_field source;
          target_cols = dict_by_field target;
          missing = concat (map (\<lambda>(col_name, source_col).
                      if map_of target_cols col_name = None
                      then [Missing_column col_name source_col] else []) source_cols);
          extra = concat (map (\<lambda>(col_name, target_col).
                      if map_of source_cols col_name = None
                      then [Extra_column col_name target_col] else []) target_cols);
          common = concat (map (\<lambda>(col_name, source_col).
                      (case map_of target_cols col_name of
                         None \<Rightarrow> []
                       | Some target_col \<Rightarrow>
                           (if Type_col source_col \<noteq> Type_col target_col
                            then [Type_difference col_name (Type_col source_col) (Type_col target_col)]
                            else []) @
                           (if Null_col source_col \<noteq> Null_col target_col
                            then [Null_difference col_name (Null_col source_col) (Null_col target_col)]
                            else []) @
                           (if Default_col source_col \<noteq> Default_col target_col
                            then [Default_difference col_name (Default_col source_col)
                                    (Default_col target_col)]
                            else []))) source_cols);
          source_order = map Field_col source;
          target_order = map Field_col target
      in missing @ extra @ common @
         (if source_order \<noteq> target_order
          then [Column_order_difference source_order target_order] else []))"

text \<open>
  \<open>_compare_foreign_keys\<close>. The two sets of triples, their differences, and the
  (unspecified) order in which each difference is iterated.
\<close>

definition fk_triple :: "fk_row \<Rightarrow> string \<times> string \<times> string" where
  "fk_triple fk = (COLUMN_NAME fk, REFERENCED_TABLE_NAME fk, REFERENCED_COLUMN_NAME fk)"

definition set_minus :: "'a list \<Rightarrow> 'a list \<Rightarrow> 'a list" where
  "set_minus xs ys = filter (\<lambda>x. x \<notin> set ys) xs"

definition compare_foreign_keys ::
  "((string \<times> string \<times> string) list \<Rightarrow> string \<times> string \<times> string \<Rightarrow> nat) \<Rightarrow>
   fk_row list \<Rightarrow> fk_row list \<Rightarrow> foreign_key_difference list" where
  "compare_foreign_keys rank source target =
     (let source_fks = remdups (map fk_triple source);
          target_fks = remdups (map fk_triple target)
      in map (\<lambda>(c, t, rc). Missing_foreign_key c t rc)
             (set_iter rank (set_minus source_fks target_fks)) @
         map (\<lambda>(c, t, rc). Extra_foreign_key c t rc)
             (set_iter rank (set_minus target_fks source_fks)))"

text \<open>\<open>_compare_indexes\<close>: the rows are grouped by index name first.\<close>

definition group_by_key_name :: "index_row list \<Rightarrow> (string \<times> index_row list) list" where
  "group_by_key_name rows =
     fold (\<lambda>idx d.
             AList.update (Key_name idx)
               ((case map_of d (Key_name idx) of None \<Rightarrow> [] | Some members \<Rightarrow> members) @ [idx]) d)
          rows []"

definition compare_indexes :: "index_row list \<Rightarrow> index_row list \<Rightarrow> index_difference list" where
  "compare_indexes source target =
     (let source_indexes = group_by_key_name source;
          target_indexes = group_by_key_name target
      in concat (map (\<lambda>(index_name, index_definition).
                   if map_of target_indexes index_name = None
                   then [Missing_index index_name index_definition] else []) source_indexes) @
         concat (map (\<lambda>(index_name, index_definition).
                   if map_of source_indexes index_name = None
                   then [Extra_index index_name index_definition] else []) target_indexes))"

section \<open>Dependency scheduler (\<open>Replicator._sort_tables_by_dependency\<close>)\<close>

text \<open>
  The dictionary \<open>dependencies\<close>: for every table of the input list, the referenced
  tables of its foreign keys that are themselves in the input list.
\<close>

definition table_deps :: "(string \<Rightarrow> fk_row list) \<Rightarrow> string list \<Rightarrow> string \<Rightarrow> string list" where
  "table_deps fks tables table =
     map REFERENCED_TABLE_NAME
       (filter (\<lambda>fk. REFERENCED_TABLE_NAME fk \<in> set tables) (fks table))"

definition build_dependencies ::
  "(string \<Rightarrow> fk_row list) \<Rightarrow> string list \<Rightarrow> (string \<rightharpoonup> string list)" where
  "build_dependencies fks tables =
     fold (\<lambda>table d. d(table \<mapsto> table_deps fks tables table)) tables Map.empty"

text \<open>
  \<open>any(dep in remaining for dep in dependencies[table])\<close>; the subscript raises
  \<open>KeyError\<close> for a table that is not a key.
\<close>

definition has_pending ::
  "(string \<rightharpoonup> string list) \<Rightarrow> string list \<Rightarrow> string \<Rightarrow> py_error + bool" where
  "has_pending dependencies remaining table =
     (case dependencies table of
        None \<Rightarrow> Inl KeyError
      | Some ds \<Rightarrow> Inr (list_ex (\<lambda>dep. dep \<in> set remaining) ds))"

text \<open>The comprehension that collects the tables without pending dependencies.\<close>

fun no_deps_of ::
  "(string \<rightharpoonup> string list) \<Rightarrow> string list \<Rightarrow> string list \<Rightarrow> py_error + string list" where
  "no_deps_of dependencies remaining [] = Inr []"
| "no_deps_of dependencies remaining (table # rest) =
     (case has_pending dependencies remaining table of
        Inl e \<Rightarrow> Inl e
      | Inr p \<Rightarrow>
          (case no_deps_of dependencies remaining rest of
             Inl e \<Rightarrow> Inl e
           | Inr r \<Rightarrow> Inr (if p then r else table # r)))"

text \<open>\<open>list(remaining)[0]\<close>, wrapped in a one-element list.\<close>

definition first_remaining :: "string list \<Rightarrow> py_error + string list" where
  "first_remaining it = (case it of [] \<Rightarrow> Inl IndexError | x # _ \<Rightarrow> Inr [x])"

text \<open>
  The inner \<open>for\<close> loop: append each chosen table to \<open>sorted_tables\<close> and remove it
  from \<open>remaining\<close>; \<open>set.remove\<close> raises \<open>KeyError\<close> for an absent element.
\<close>

fun append_and_remove ::
  "string list \<Rightarrow> string list \<times> string list \<Rightarrow> py_error + (string list \<times> string list)" where
  "append_and_remove [] (sorted_tables, remaining) = Inr (sorted_tables, remaining)"
| "append_and_remove (table # rest) (sorted_tables, remaining) =
     (if table \<in> set remaining
      then append_and_remove rest (sorted_tables @ [table], removeAll table remaining)
      else Inl KeyError)"

text \<open>One pass through the body of the \<open>while\<close> loop.\<close>

definition sort_step ::
  "(string list \<Rightarrow> string \<Rightarrow> nat) \<Rightarrow> (string \<rightharpoonup> string list) \<Rightarrow>
   string list \<times> string list \<Rightarrow> py_error + (string list \<times> string list)" where
  "sort_step rank dependencies st =
     (case no_deps_of dependencies (snd st) (set_iter rank (snd st)) of
        Inl e \<Rightarrow> Inl e
      | Inr no_deps \<Rightarrow>
          (case (if no_deps = [] then first_remaining (set_iter rank (snd st))
                 else Inr no_deps) of
             Inl e \<Rightarrow> Inl e
           | Inr chosen \<Rightarrow> append_and_remove chosen st))"

lemma append_and_remove_shorter:
  "append_and_remove chosen (s, r) = Inr (s', r') \<Longrightarrow> chosen \<noteq> [] \<Longrightarrow> length r' < length r"
proof (induction chosen arbitrary: s r)
  case Nil
  then show ?case by simp
next
  case (Cons t ts)
  from Cons.prems(1) have mem: "t \<in> set r"
    by (simp split: if_splits)
  from Cons.prems(1) mem
  have rest: "append_and_remove ts (s @ [t], removeAll t r) = Inr (s', r')"
    by simp
  have drop: "length (removeAll t r) < length r"
    using mem by (simp add: length_removeAll_less)
  show ?case
  proof (cases "ts = []")
    case True
    with rest drop show ?thesis by simp
  next
    case False
    from Cons.IH [OF rest False] drop show ?thesis by simp
  qed
qed

lemma sort_step_shorter:
  assumes "sort_step rank dependencies (s, r) = Inr (s', r')"
  shows "length r' < length r"
proof -
  from assms obtain chosen where
    ch: "append_and_remove chosen (s, r) = Inr (s', r')" and ne: "chosen \<noteq> []"
    by (auto simp: sort_step_def first_remaining_def
             split: sum.splits if_splits list.splits)
  then show ?thesis by (rule append_and_remove_shorter)
qed

text \<open>The \<open>while remaining:\<close> loop.\<close>

function sort_loop ::
  "(string list \<Rightarrow> string \<Rightarrow> nat) \<Rightarrow> (string \<rightharpoonup> string list) \<Rightarrow>
   string list \<Rightarrow> string list \<Rightarrow> py_error + string list" where
  "sort_loop rank dependencies sorted_tables remaining =
     (if remaining = [] then Inr sorted_tables
      else (case sort_step rank dependencies (sorted_tables, remaining) of
              Inl e \<Rightarrow> Inl e
            | Inr st \<Rightarrow> sort_loop rank dependencies (fst st) (snd st)))"
  by pat_completeness auto
termination
proof (relation "measure (\<lambda>(rank, dependencies, sorted_tables, remaining). length remaining)")
  show "wf (measure (\<lambda>(rank, dependencies, sorted_tables, remaining). length remaining))"
    by simp
next
  fix rank :: "string list \<Rightarrow> string \<Rightarrow> nat"
  fix dependencies :: "string \<rightharpoonup> string list"
  fix sorted_tables remaining :: "string list"
  fix st :: "string list \<times> string list"
  assume "sort_step rank dependencies (sorted_tables, remaining) = Inr st"
  then have "sort_step rank dependencies (sorted_tables, remaining) = Inr (fst st, snd st)"
    by simp
  then have "length (snd st) < length remaining"
    by (rule sort_step_shorter)
  then show "((rank, dependencies, fst st, snd st), (rank, dependencies, sorted_tables, remaining))
      \<in> measure (\<lambda>(rank, dependencies, sorted_tables, remaining). length remaining)"
    by (simp add: case_prod_beta)
qed

declare sort_loop.simps [simp del]

text \<open>
  The whole method. \<open>get_table_foreign_keys\<close> catches the database errors itself and
  returns the empty list, so the lookup \<open>fks\<close> is a total function. Any exception in
  the body is caught and the input list is returned unchanged.
\<close>

definition sort_tables_by_dependency ::
  "(string list \<Rightarrow> string \<Rightarrow> nat) \<Rightarrow> (string \<Rightarrow> fk_row list) \<Rightarrow> string list \<Rightarrow> string list" where
  "sort_tables_by_dependency rank fks tables =
     (case sort_loop rank (build_dependencies fks tables) [] (remdups tables) of
        Inl e \<Rightarrow> tables
      | Inr sorted_tables \<Rightarrow> sorted_tables)"

section \<open>Column position (\<open>Replicator._get_column_position\<close>)\<close>

text \<open>\<open>list.index\<close>: the first position of an element; \<open>None\<close> stands for \<open>ValueError\<close>.\<close>

fun list_index :: "'a list \<Rightarrow> 'a \<Rightarrow> nat option" where
  "list_index [] x = None"
| "list_index (y # ys) x = (if y = x then Some 0 else map_option Suc (list_index ys x))"

text \<open>
  The loop \<open>for i in range(column_index - 1, -1, -1)\<close> of \<open>_get_column_position\<close>, with
  the \<open>return "FIRST"\<close> that follows it: the argument counts the positions still to scan.
\<close>

fun scan_previous :: "string list \<Rightarrow> string list \<Rightarrow> nat \<Rightarrow> string" where
  "scan_previous source_columns target_columns 0 = ''FIRST''"
| "scan_previous source_columns target_columns (Suc i) =
     (if source_columns ! i \<in> set target_columns
      then ''AFTER `'' @ source_columns ! i @ ''`''
      else scan_previous source_columns target_columns i)"

text \<open>
  The method reads the two structures from the databases (\<open>get_table_structure\<close> returns
  the empty list on a database error); they are arguments here. The \<open>except\<close> branch
  returns the empty string, as the failed \<open>index\<close> does.
\<close>

definition get_column_position :: "column_row list \<Rightarrow> column_row list \<Rightarrow> string \<Rightarrow> string" where
  "get_column_position source_structure target_structure column_name =
     (let source_columns = map Field_col source_structure;
          target_columns = map Field_col target_structure
      in if column_name \<notin> set source_columns then ''''
         else (case list_index source_columns column_name of
                 None \<Rightarrow> ''''
               | Some column_index \<Rightarrow>
                   if column_index = 0 then ''FIRST''
                   else scan_previous source_columns target_columns column_index))"

section \<open>The two databases and the run's trace\<close>

text \<open>
  A migration step and its actions, as \<open>get_replication_plan\<close> builds them: each action is
  a dictionary told apart by its \<open>'type'\<close> entry.
\<close>

datatype action =
    Create_table
  | Alter_table "structure_difference list"
  | Update_foreign_keys "foreign_key_difference list"
  | Update_indexes "index_difference list"
  | Replicate_data nat nat

record plan_step =
  step_table :: string
  step_actions :: "action list"
  is_maintain_table :: bool

text \<open>
  What running statements on a connection of the target ends in: success, a
  \<open>mysql.connector.Error\<close> with its message, or an exception of another class.
\<close>

datatype db_response = Db_ok | Db_error string | Other_exception string

type_synonym row = "string list"

datatype warning = Not_in_source string | Not_in_target string | No_columns string

text \<open>
  The trace of a run: every write attempted on the target with its outcome, the warnings
  of the data pass, and a marker at the entry of each handler of the structure pass.
  \<open>Sent\<close> is one connection of \<open>execute_query\<close> or \<open>execute_queries\<close>: the statements
  and the response, committed only on \<open>Db_ok\<close>. \<open>Insert_batch\<close> is one connection of
  \<open>_insert_data\<close>: table, statement, rows, and whether \<open>executemany\<close> and \<open>commit\<close> went
  through.
\<close>

datatype event =
    Call string action
  | Call_add_missing_foreign_keys "string list"
  | Sent "string list" db_response
  | Truncate string bool
  | Insert_batch string string "row list" bool
  | Warning warning

text \<open>
  The environment of a run. The source database is only read. What the target answers
  may depend on everything done to it so far, so its part takes the trace. The read
  methods of \<open>DatabaseManager\<close> catch the database errors and return an empty or false
  answer, so they are total functions. The two ranks give the iteration orders of the
  Python sets.
\<close>

record world =
  table_rank :: "string list \<Rightarrow> string \<Rightarrow> nat"
  fk_rank :: "(string \<times> string \<times> string) list \<Rightarrow> string \<times> string \<times> string \<Rightarrow> nat"
  src_connects :: bool
  tgt_connects :: bool
  backup_raises :: bool
  src_exists :: "string \<Rightarrow> bool"
  src_structure :: "string \<Rightarrow> column_row list"
  src_fks :: "string \<Rightarrow> fk_row list"
  src_indexes :: "string \<Rightarrow> index_row list"
  src_count :: "string \<Rightarrow> nat"
  src_create_statement :: "string \<Rightarrow> string"
  src_data :: "string \<Rightarrow> row list"
  tgt_exists :: "event list \<Rightarrow> string \<Rightarrow> bool"
  tgt_structure :: "event list \<Rightarrow> string \<Rightarrow> column_row list"
  tgt_fks :: "event list \<Rightarrow> string \<Rightarrow> fk_row list"
  tgt_indexes :: "event list \<Rightarrow> string \<Rightarrow> index_row list"
  tgt_count :: "event list \<Rightarrow> string \<Rightarrow> nat"
  tgt_respond :: "event list \<Rightarrow> string list \<Rightarrow> db_response"
  tgt_truncate :: "event list \<Rightarrow> string \<Rightarrow> bool"
  tgt_insert :: "event list \<Rightarrow> string \<Rightarrow> string \<Rightarrow> row list \<Rightarrow> bool"

section \<open>Writing to the target (\<open>DatabaseManager\<close>)\<close>

text \<open>
  \<open>execute_query\<close> and \<open>execute_queries\<close>: a \<open>mysql.connector.Error\<close> is caught and
  turned into the result \<open>False\<close>; any other exception leaves the method (\<open>Inl\<close> with
  its message).
\<close>

definition run_statements :: "world \<Rightarrow> event list \<Rightarrow> string list \<Rightarrow> (string + bool) \<times> event list" where
  "run_statements w trace queries =
     (let r = tgt_respond w trace queries;
          trace' = trace @ [Sent queries r]
      in case r of
           Db_ok \<Rightarrow> (Inr True, trace')
         | Db_error msg \<Rightarrow> (Inr False, trace')
         | Other_exception msg \<Rightarrow> (Inl msg, trace'))"

definition execute_query :: "world \<Rightarrow> event list \<Rightarrow> string \<Rightarrow> (string + bool) \<times> event list" where
  "execute_query w trace query = run_statements w trace [query]"

definition execute_queries :: "world \<Rightarrow> event list \<Rightarrow> string list \<Rightarrow> (string + bool) \<times> event list" where
  "execute_queries w trace queries = run_statements w trace queries"

text \<open>\<open>truncate_table\<close>, with its fallback to \<open>DELETE\<close>: the result says whether the table was cleared.\<close>

definition truncate_table :: "world \<Rightarrow> event list \<Rightarrow> string \<Rightarrow> bool \<times> event list" where
  "truncate_table w trace table_name =
     (let ok = tgt_truncate w trace table_name in (ok, trace @ [Truncate table_name ok]))"

section \<open>The structure pass (\<open>Replicator.replicate_structure\<close>)\<close>

text \<open>
  \<open>_create_table_without_foreign_keys\<close>: every outcome but success of the statement is
  the result \<open>False\<close>.
\<close>

definition create_table_without_foreign_keys ::
  "world \<Rightarrow> string \<Rightarrow> string \<Rightarrow> event list \<Rightarrow> bool \<times> event list" where
  "create_table_without_foreign_keys w table_name original_statement trace =
     (case execute_query w trace (strip_foreign_keys original_statement) of
        (Inr True, trace') \<Rightarrow> (True, trace')
      | (Inr False, trace') \<Rightarrow> (False, trace')
      | (Inl msg, trace') \<Rightarrow> (False, trace'))"

text \<open>
  \<open>_create_table\<close>. The retry is in the \<open>except Exception\<close> branch around
  \<open>execute_query\<close>: it is reached only by an exception that \<open>execute_query\<close> lets through.
  A result \<open>False\<close> of \<open>execute_query\<close> falls to the final \<open>return False\<close>; an exception
  without the words \<open>Foreign key constraint\<close> is raised again and caught by the outer
  \<open>except\<close>, which returns \<open>False\<close>. The source statement is empty when it could not be read.
\<close>

definition create_table :: "world \<Rightarrow> string \<Rightarrow> event list \<Rightarrow> bool \<times> event list" where
  "create_table w table_name trace =
     (let trace0 = trace @ [Call table_name Create_table];
          create_statement = src_create_statement w table_name
      in if create_statement = [] then (False, trace0)
         else (case execute_query w trace0 create_statement of
                 (Inr True, trace') \<Rightarrow> (True, trace')
               | (Inr False, trace') \<Rightarrow> (False, trace')
               | (Inl msg, trace') \<Rightarrow>
                   if str_contains ''Foreign key constraint'' msg
                   then create_table_without_foreign_keys w table_name create_statement trace'
                   else (False, trace')))"

text \<open>The statement that \<open>_alter_table\<close> builds for one difference, if any.\<close>

definition add_column_query :: "world \<Rightarrow> event list \<Rightarrow> string \<Rightarrow> column_row \<Rightarrow> string" where
  "add_column_query w trace table_name col_def =
     ''ALTER TABLE '' @ table_name @ '' ADD COLUMN `'' @ Field_col col_def @ ''` '' @ Type_col col_def
     @ (if Null_col col_def = ''NO'' then '' NOT NULL'' else [])
     @ (case Default_col col_def of
          None \<Rightarrow> []
        | Some default_val \<Rightarrow>
            if lower default_val \<in> {''current_timestamp()'', ''now()''}
            then '' DEFAULT '' @ default_val
            else '' DEFAULT '' @ [CHR 0x27] @ default_val @ [CHR 0x27])
     @ (if Extra_col col_def \<noteq> [] then '' '' @ Extra_col col_def else [])
     @ (let position = get_column_position (src_structure w table_name)
                          (tgt_structure w trace table_name) (Field_col col_def)
        in if position \<noteq> [] then '' '' @ position else [])"

fun alter_queries :: "world \<Rightarrow> event list \<Rightarrow> string \<Rightarrow> structure_difference \<Rightarrow> string list" where
  "alter_queries w trace table_name (Missing_column col_name col_def) =
     [add_column_query w trace table_name col_def]"
| "alter_queries w trace table_name (Extra_column col_name col_def) =
     [''ALTER TABLE '' @ table_name @ '' DROP COLUMN `'' @ col_name @ ''`'']"
| "alter_queries w trace table_name (Type_difference col_name source_type target_type) =
     [''ALTER TABLE '' @ table_name @ '' MODIFY COLUMN `'' @ col_name @ ''` '' @ source_type]"
| "alter_queries w trace table_name (Null_difference col_name source_null target_null) = []"
| "alter_queries w trace table_name (Default_difference col_name source_default target_default) = []"
| "alter_queries w trace table_name (Column_order_difference source_order target_order) = []"

text \<open>
  \<open>_alter_table\<close>, \<open>_update_foreign_keys\<close> and \<open>_update_indexes\<close> share their ending: the
  statements, if any, are run in one transaction, and only its success keeps the result \<open>True\<close>.
\<close>

definition run_if_any :: "world \<Rightarrow> event list \<Rightarrow> string list \<Rightarrow> bool \<times> event list" where
  "run_if_any w trace queries =
     (if queries = [] then (True, trace)
      else (case execute_queries w trace queries of
              (Inr True, trace') \<Rightarrow> (True, trace')
            | (Inr False, trace') \<Rightarrow> (False, trace')
            | (Inl msg, trace') \<Rightarrow> (False, trace')))"

definition alter_table ::
  "world \<Rightarrow> string \<Rightarrow> structure_difference list \<Rightarrow> event list \<Rightarrow> bool \<times> event list" where
  "alter_table w table_name differences trace =
     (let trace0 = trace @ [Call table_name (Alter_table differences)]
      in run_if_any w trace0 (concat (map (alter_queries w trace0 table_name) differences)))"

text \<open>\<open>_update_foreign_keys\<close>.\<close>

fun foreign_key_queries :: "world \<Rightarrow> event list \<Rightarrow> string \<Rightarrow> foreign_key_difference \<Rightarrow> string list" where
  "foreign_key_queries w trace table_name (Missing_foreign_key column ref_table ref_column) =
     [''ALTER TABLE '' @ table_name @ '' ADD CONSTRAINT '' @ ''fk_'' @ table_name @ ''_'' @ column
      @ '' FOREIGN KEY ('' @ column @ '') REFERENCES '' @ ref_table @ ''('' @ ref_column @ '')'']"
| "foreign_key_queries w trace table_name (Extra_foreign_key column ref_table ref_column) =
     (case find (\<lambda>fk. COLUMN_NAME fk = column \<and> REFERENCED_TABLE_NAME fk = ref_table \<and>
                       REFERENCED_COLUMN_NAME fk = ref_column) (tgt_fks w trace table_name) of
        None \<Rightarrow> []
      | Some fk \<Rightarrow> [''ALTER TABLE '' @ table_name @ '' DROP FOREIGN KEY '' @ CONSTRAINT_NAME fk])"

definition update_foreign_keys ::
  "world \<Rightarrow> string \<Rightarrow> foreign_key_difference list \<Rightarrow> event list \<Rightarrow> bool \<times> event list" where
  "update_foreign_keys w table_name differences trace =
     (let trace0 = trace @ [Call table_name (Update_foreign_keys differences)]
      in run_if_any w trace0 (concat (map (foreign_key_queries w trace0 table_name) differences)))"

text \<open>
  \<open>_update_indexes\<close>. For a missing index the rows of the source are read again and the
  loop over them stops at the first row with the index's name.
\<close>

fun index_queries :: "world \<Rightarrow> string \<Rightarrow> index_difference \<Rightarrow> string list" where
  "index_queries w table_name (Missing_index index_name index_definition) =
     (if index_name \<noteq> ''PRIMARY'' then
        (case find (\<lambda>idx. Key_name idx = index_name) (src_indexes w table_name) of
           None \<Rightarrow> []
         | Some idx \<Rightarrow>
             [if Non_unique idx = 0
              then ''CREATE UNIQUE INDEX '' @ index_name @ '' ON '' @ table_name
                   @ '' ('' @ Column_name idx @ '')''
              else ''CREATE INDEX '' @ index_name @ '' ON '' @ table_name
                   @ '' ('' @ Column_name idx @ '')''])
      else [])"
| "index_queries w table_name (Extra_index index_name index_definition) =
     (if index_name \<noteq> ''PRIMARY''
      then [''DROP INDEX '' @ index_name @ '' ON '' @ table_name]
      else [])"

definition update_indexes ::
  "world \<Rightarrow> string \<Rightarrow> index_difference list \<Rightarrow> event list \<Rightarrow> bool \<times> event list" where
  "update_indexes w table_name differences trace =
     (let trace0 = trace @ [Call table_name (Update_indexes differences)]
      in run_if_any w trace0 (concat (map (index_queries w table_name) differences)))"

text \<open>
  \<open>_add_missing_foreign_keys\<close>. The result of each \<open>execute_query\<close> is dropped and an
  exception of it is caught inside the loop, so only the trace is kept.
\<close>

fun add_foreign_keys ::
  "world \<Rightarrow> string \<Rightarrow> (string \<times> string \<times> string) list \<Rightarrow> event list \<Rightarrow> event list" where
  "add_foreign_keys w table_name [] trace = trace"
| "add_foreign_keys w table_name ((column, ref_table, ref_column) # rest) trace =
     add_foreign_keys w table_name rest
       (if tgt_exists w trace ref_table
        then snd (execute_query w trace
               (''ALTER TABLE '' @ table_name @ '' ADD CONSTRAINT '' @ ''fk_'' @ table_name @ ''_''
                @ column @ ''_'' @ ref_table @ '' FOREIGN KEY ('' @ column @ '') REFERENCES ''
                @ ref_table @ ''('' @ ref_column @ '')''))
        else trace)"

definition missing_fks_of :: "world \<Rightarrow> event list \<Rightarrow> string \<Rightarrow> (string \<times> string \<times> string) list" where
  "missing_fks_of w trace table_name =
     set_iter (fk_rank w)
       (set_minus (remdups (map fk_triple (src_fks w table_name)))
                  (remdups (map fk_triple (tgt_fks w trace table_name))))"

fun add_missing_loop :: "world \<Rightarrow> string list \<Rightarrow> event list \<Rightarrow> event list" where
  "add_missing_loop w [] trace = trace"
| "add_missing_loop w (table_name # rest) trace =
     add_missing_loop w rest (add_foreign_keys w table_name (missing_fks_of w trace table_name) trace)"

definition add_missing_foreign_keys :: "world \<Rightarrow> string list \<Rightarrow> event list \<Rightarrow> bool \<times> event list" where
  "add_missing_foreign_keys w tables trace =
     (True, add_missing_loop w tables (trace @ [Call_add_missing_foreign_keys tables]))"

text \<open>
  The body of \<open>replicate_structure\<close> from the plan on. The two lists are collected from
  the plan; the results of the handlers are dropped, and no handler raises.
\<close>

definition tables_to_create_of :: "plan_step list \<Rightarrow> string list" where
  "tables_to_create_of plan =
     concat (map (\<lambda>step. concat (map (\<lambda>a. if a = Create_table then [step_table step] else [])
                                      (step_actions step))) plan)"

fun is_alter_action :: "action \<Rightarrow> bool" where
  "is_alter_action (Alter_table differences) = True"
| "is_alter_action (Update_foreign_keys differences) = True"
| "is_alter_action (Update_indexes differences) = True"
| "is_alter_action a = False"

definition tables_to_alter_of :: "plan_step list \<Rightarrow> (string \<times> action) list" where
  "tables_to_alter_of plan =
     concat (map (\<lambda>step. map (\<lambda>a. (step_table step, a))
                             (filter is_alter_action (step_actions step))) plan)"

fun apply_alter_action :: "world \<Rightarrow> string \<times> action \<Rightarrow> event list \<Rightarrow> bool \<times> event list" where
  "apply_alter_action w (table_name, Alter_table differences) trace =
     alter_table w table_name differences trace"
| "apply_alter_action w (table_name, Update_foreign_keys differences) trace =
     update_foreign_keys w table_name differences trace"
| "apply_alter_action w (table_name, Update_indexes differences) trace =
     update_indexes w table_name differences trace"
| "apply_alter_action w (table_name, a) trace = (True, trace)"

definition execute_plan :: "world \<Rightarrow> plan_step list \<Rightarrow> event list \<Rightarrow> bool \<times> event list" where
  "execute_plan w plan trace =
     (let tables_to_create = tables_to_create_of plan;
          tables_to_alter = tables_to_alter_of plan;
          tables_to_create =
            (if tables_to_create \<noteq> []
             then sort_tables_by_dependency (table_rank w) (src_fks w) tables_to_create
             else tables_to_create);
          trace1 = fold (\<lambda>table_name tr. snd (create_table w table_name tr)) tables_to_create trace;
          trace2 = fold (\<lambda>ta tr. snd (apply_alter_action w ta tr)) tables_to_alter trace1;
          trace3 = snd (add_missing_foreign_keys w tables_to_create trace2)
      in (True, trace3))"

text \<open>
  \<open>analyze_table_differences\<close> and \<open>get_replication_plan\<close> of the structure analyzer:
  they only read, so the trace is not changed.
\<close>

record table_analysis =
  exists_in_source :: bool
  exists_in_target :: bool
  structure_differences :: "structure_difference list"
  foreign_key_differences :: "foreign_key_difference list"
  index_differences :: "index_difference list"
  data_count_source :: nat
  data_count_target :: nat

definition analyze_table_differences :: "world \<Rightarrow> event list \<Rightarrow> string \<Rightarrow> table_analysis" where
  "analyze_table_differences w trace table_name =
     (let differences =
            \<lparr>exists_in_source = src_exists w table_name,
             exists_in_target = tgt_exists w trace table_name,
             structure_differences = [], foreign_key_differences = [], index_differences = [],
             data_count_source = 0, data_count_target = 0\<rparr>
      in if \<not> exists_in_source differences then differences
         else if \<not> exists_in_target differences then differences
         else differences
           \<lparr>structure_differences :=
              compare_structures (src_structure w table_name) (tgt_structure w trace table_name),
            foreign_key_differences :=
              compare_foreign_keys (fk_rank w) (src_fks w table_name) (tgt_fks w trace table_name),
            index_differences :=
              compare_indexes (src_indexes w table_name) (tgt_indexes w trace table_name),
            data_count_source := src_count w table_name,
            data_count_target := tgt_count w trace table_name\<rparr>)"

definition plan_step_of :: "world \<Rightarrow> event list \<Rightarrow> string list \<Rightarrow> string \<Rightarrow> plan_step list" where
  "plan_step_of w trace maintain_tables table_name =
     (let table_analysis = analyze_table_differences w trace table_name
      in if \<not> exists_in_source table_analysis then []
         else
           (let acts =
                  (if \<not> exists_in_target table_analysis then [Create_table]
                   else (if structure_differences table_analysis \<noteq> []
                         then [Alter_table (structure_differences table_analysis)] else []) @
                        (if foreign_key_differences table_analysis \<noteq> []
                         then [Update_foreign_keys (foreign_key_differences table_analysis)] else []) @
                        (if index_differences table_analysis \<noteq> []
                         then [Update_indexes (index_differences table_analysis)] else [])) @
                  (if table_name \<in> set maintain_tables
                   then [Replicate_data (data_count_source table_analysis)
                           (data_count_target table_analysis)]
                   else [])
            in if acts \<noteq> []
               then [\<lparr>step_table = table_name, step_actions = acts,
                      is_maintain_table = (table_name \<in> set maintain_tables)\<rparr>]
               else []))"

definition get_replication_plan :: "world \<Rightarrow> event list \<Rightarrow> string list \<Rightarrow> string list \<Rightarrow> plan_step list" where
  "get_replication_plan w trace table_names maintain_tables =
     concat (map (plan_step_of w trace maintain_tables) table_names)"

text \<open>
  \<open>replicate_structure\<close>: an exception of the backup is caught by the \<open>except\<close> of the
  method, which returns \<open>False\<close> before anything is written.
\<close>

definition replicate_structure ::
  "world \<Rightarrow> string list \<Rightarrow> string list \<Rightarrow> bool \<Rightarrow> event list \<Rightarrow> bool \<times> event list" where
  "replicate_structure w tables maintain_tables create_backup trace =
     (if create_backup \<and> backup_raises w then (False, trace)
      else execute_plan w (get_replication_plan w trace tables maintain_tables) trace)"

section \<open>The data pass (\<open>Replicator.replicate_data\<close>)\<close>

definition batch_size :: nat where
  "batch_size = 1000"

text \<open>The slices \<open>data[i:i + batch_size]\<close> for \<open>i\<close> in \<open>range(i, len(data), batch_size)\<close>.\<close>

function batches_from :: "nat \<Rightarrow> 'a list \<Rightarrow> 'a list list" where
  "batches_from i data =
     (if i < length data then take batch_size (drop i data) # batches_from (i + batch_size) data
      else [])"
  by pat_completeness auto
termination
  by (relation "measure (\<lambda>(i, data). length data - i)") (auto simp: batch_size_def)

declare batches_from.simps [simp del]

definition insert_query :: "string \<Rightarrow> string list \<Rightarrow> string" where
  "insert_query table_name columns =
     ''INSERT INTO '' @ table_name @ '' (''
     @ str_join '', '' (map (\<lambda>c. ''`'' @ c @ ''`'') columns)
     @ '') VALUES ('' @ str_join '', '' (replicate (length columns) ''%s'') @ '')''"

text \<open>
  The loop over the batches of \<open>_insert_data\<close>: each batch has a connection of its own,
  and the first exception ends the method with \<open>False\<close>.
\<close>

fun insert_batches ::
  "world \<Rightarrow> string \<Rightarrow> string \<Rightarrow> row list list \<Rightarrow> event list \<Rightarrow> bool \<times> event list" where
  "insert_batches w table_name query [] trace = (True, trace)"
| "insert_batches w table_name query (batch # rest) trace =
     (let ok = tgt_insert w trace table_name query batch;
          trace' = trace @ [Insert_batch table_name query batch ok]
      in if ok then insert_batches w table_name query rest trace' else (False, trace'))"

definition insert_data ::
  "world \<Rightarrow> string \<Rightarrow> string list \<Rightarrow> row list \<Rightarrow> event list \<Rightarrow> bool \<times> event list" where
  "insert_data w table_name columns data trace =
     (if data = [] then (True, trace)
      else insert_batches w table_name (insert_query table_name columns) (batches_from 0 data) trace)"

text \<open>
  One pass through the body of the \<open>for\<close> loop of \<open>replicate_data\<close>. The flag \<open>False\<close>
  stands for the \<open>return False\<close> of the method, \<open>True\<close> for going on with the next table
  (at the end of the body or by \<open>continue\<close>).
\<close>

definition replicate_table :: "world \<Rightarrow> string \<Rightarrow> event list \<Rightarrow> bool \<times> event list" where
  "replicate_table w table_name trace =
     (if \<not> src_exists w table_name
      then (True, trace @ [Warning (Not_in_source table_name)])
      else if \<not> tgt_exists w trace table_name
      then (True, trace @ [Warning (Not_in_target table_name)])
      else
        (let columns = map Field_col (src_structure w table_name)
         in if columns = []
            then (True, trace @ [Warning (No_columns table_name)])
            else
              (case truncate_table w trace table_name of
                 (False, trace1) \<Rightarrow> (False, trace1)
               | (True, trace1) \<Rightarrow>
                   (let source_data = src_data w table_name
                    in if source_data \<noteq> []
                       then insert_data w table_name columns source_data trace1
                       else (True, trace1)))))"

fun replicate_data :: "world \<Rightarrow> string list \<Rightarrow> event list \<Rightarrow> bool \<times> event list" where
  "replicate_data w [] trace = (True, trace)"
| "replicate_data w (table_name # rest) trace =
     (case replicate_table w table_name trace of
        (False, trace') \<Rightarrow> (False, trace')
      | (True, trace') \<Rightarrow> replicate_data w rest trace')"

text \<open>\<open>full_replication\<close>.\<close>

definition full_replication ::
  "world \<Rightarrow> string list \<Rightarrow> string list \<Rightarrow> bool \<Rightarrow> event list \<Rightarrow> bool \<times> event list" where
  "full_replication w all_tables maintain_tables create_backup trace =
     (if \<not> src_connects w then (False, trace)
      else if \<not> tgt_connects w then (False, trace)
      else (case replicate_structure w all_tables maintain_tables create_backup trace of
              (False, trace1) \<Rightarrow> (False, trace1)
            | (True, trace1) \<Rightarrow>
                if maintain_tables \<noteq> []
                then (case replicate_data w maintain_tables trace1 of
                        (False, trace2) \<Rightarrow> (False, trace2)
                      | (True, trace2) \<Rightarrow> (True, trace2))
                else (True, trace1)))"

section \<open>Notions used in the statements\<close>

text \<open>
  Two abbreviations for the proofs: a table is blocked when one of its dependencies is
  still in \<open>remaining\<close>, and \<open>chosen_of\<close> is the list a pass of the loop selects.
\<close>

definition blocked :: "(string \<rightharpoonup> string list) \<Rightarrow> string list \<Rightarrow> string \<Rightarrow> bool" where
  "blocked dependencies remaining table =
     (case dependencies table of
        None \<Rightarrow> False
      | Some ds \<Rightarrow> list_ex (\<lambda>dep. dep \<in> set remaining) ds)"

definition chosen_of ::
  "(string list \<Rightarrow> string \<Rightarrow> nat) \<Rightarrow> (string \<rightharpoonup> string list) \<Rightarrow> string list \<Rightarrow> string list" where
  "chosen_of rank dependencies remaining =
     (let ready = filter (\<lambda>t. \<not> blocked dependencies remaining t) (set_iter rank remaining)
      in if ready = [] then take 1 (set_iter rank remaining) else ready)"

text \<open>
  The in-scope dependency relation of a list of tables: \<open>(a, b)\<close> when table \<open>a\<close> of
  the list has a foreign key that references table \<open>b\<close> of the list. \<open>before_in xs a b\<close>
  says that \<open>a\<close> stands before the first occurrence of \<open>b\<close> in \<open>xs\<close>.
\<close>

definition dep_rel :: "(string \<Rightarrow> fk_row list) \<Rightarrow> string list \<Rightarrow> (string \<times> string) set" where
  "dep_rel fks tables = {(a, b). a \<in> set tables \<and> b \<in> set (table_deps fks tables a)}"

definition before_in :: "'a list \<Rightarrow> 'a \<Rightarrow> 'a \<Rightarrow> bool" where
  "before_in xs a b = (b \<in> set xs \<and> a \<in> set (takeWhile (\<lambda>x. x \<noteq> b) xs))"

text \<open>
  No table that can be reached from \<open>T\<close> along in-scope dependencies (\<open>T\<close> included)
  lies on a dependency cycle.
\<close>

definition cycle_free_from :: "(string \<Rightarrow> fk_row list) \<Rightarrow> string list \<Rightarrow> string \<Rightarrow> bool" where
  "cycle_free_from fks tables T =
     (\<forall>x. (T, x) \<in> (dep_rel fks tables)\<^sup>* \<longrightarrow> (x, x) \<notin> (dep_rel fks tables)\<^sup>+)"

text \<open>The handler markers of a trace, and the tables whose creation was attempted.\<close>

fun is_call :: "event \<Rightarrow> bool" where
  "is_call (Call table_name a) = True"
| "is_call (Call_add_missing_foreign_keys tables) = True"
| "is_call e = False"

definition calls_of :: "event list \<Rightarrow> event list" where
  "calls_of trace = filter is_call trace"

fun create_attempt :: "event \<Rightarrow> string list" where
  "create_attempt (Call table_name Create_table) = [table_name]"
| "create_attempt e = []"

definition create_attempts :: "event list \<Rightarrow> string list" where
  "create_attempts trace = concat (map create_attempt trace)"

definition scheduled_creates :: "world \<Rightarrow> plan_step list \<Rightarrow> string list" where
  "scheduled_creates w plan =
     (if tables_to_create_of plan \<noteq> []
      then sort_tables_by_dependency (table_rank w) (src_fks w) (tables_to_create_of plan)
      else [])"

text \<open>
  The events of the data pass and those of the structure pass; \<open>extends_by excluded\<close>
  says that a trace continues another one without any event of the excluded kind.
\<close>

fun is_data_event :: "event \<Rightarrow> bool" where
  "is_data_event (Truncate table_name ok) = True"
| "is_data_event (Insert_batch table_name query batch ok) = True"
| "is_data_event (Warning warn) = True"
| "is_data_event e = False"

fun is_structure_event :: "event \<Rightarrow> bool" where
  "is_structure_event (Call table_name a) = True"
| "is_structure_event (Call_add_missing_foreign_keys tables) = True"
| "is_structure_event (Sent queries r) = True"
| "is_structure_event e = False"

definition extends_by :: "(event \<Rightarrow> bool) \<Rightarrow> event list \<Rightarrow> event list \<Rightarrow> bool" where
  "extends_by excluded trace trace' = (\<exists>ext. trace' = trace @ ext \<and> filter excluded ext = [])"

text \<open>
  The rows of a table of the target as they follow from the trace: a successful clearing
  empties the table, and every committed batch is appended.
\<close>

fun apply_event :: "string \<Rightarrow> event \<Rightarrow> row list \<Rightarrow> row list" where
  "apply_event table_name (Truncate t ok) rows = (if t = table_name \<and> ok then [] else rows)"
| "apply_event table_name (Insert_batch t query batch ok) rows =
     (if t = table_name \<and> ok then rows @ batch else rows)"
| "apply_event table_name e rows = rows"

definition committed_rows :: "string \<Rightarrow> event list \<Rightarrow> row list" where
  "committed_rows table_name trace = fold (apply_event table_name) trace []"

text \<open>The events of batches that the target accepted and committed.\<close>

definition committed :: "string \<Rightarrow> string \<Rightarrow> row list list \<Rightarrow> event list" where
  "committed table_name query batches = map (\<lambda>batch. Insert_batch table_name query batch True) batches"

section \<open>Concrete schemas, plans and runs\<close>

text \<open>Foreign-key lookups of two concrete schemas.\<close>

definition fk_to :: "string \<Rightarrow> string \<Rightarrow> fk_row" where
  "fk_to column ref_table =
     \<lparr>COLUMN_NAME = column, REFERENCED_TABLE_NAME = ref_table,
      REFERENCED_COLUMN_NAME = ''id'', CONSTRAINT_NAME = ''fk_'' @ column\<rparr>"

definition cyclic_fks :: "string \<Rightarrow> fk_row list" where
  "cyclic_fks table =
     (if table = ''t'' then [fk_to ''d_id'' ''d'']
      else if table = ''d'' then [fk_to ''e_id'' ''e'']
      else if table = ''e'' then [fk_to ''d_id'' ''d'']
      else [])"

definition shop_fks :: "string \<Rightarrow> fk_row list" where
  "shop_fks table =
     (if table = ''orders'' then [fk_to ''customer_id'' ''customers''] else [])"

text \<open>The \<open>users\<close> table of the specification's scenario, on both sides.\<close>

definition col :: "string \<Rightarrow> string \<Rightarrow> string \<Rightarrow> string option \<Rightarrow> column_row" where
  "col name type null dflt =
     \<lparr>Field_col = name, Type_col = type, Null_col = null, Key_col = '''',
      Default_col = dflt, Extra_col = ''''\<rparr>"

definition users_source :: "column_row list" where
  "users_source =
     [col ''id'' ''int(11)'' ''NO'' None,
      col ''name'' ''varchar(255)'' ''YES'' None,
      col ''email'' ''varchar(255)'' ''NO'' None,
      col ''created_at'' ''timestamp'' ''NO'' (Some ''current_timestamp()'')]"

definition users_target :: "column_row list" where
  "users_target =
     [col ''id'' ''int(11)'' ''NO'' None,
      col ''name'' ''varchar(255)'' ''YES'' None,
      col ''legacy_flag'' ''tinyint(1)'' ''YES'' None]"

text \<open>
  A world for the concrete runs: both databases are reachable and empty, and the
  target accepts every statement. The sets are iterated in the order of their lists.
\<close>

definition quiet_world :: world where
  "quiet_world =
     \<lparr>table_rank = (\<lambda>_ _. 0), fk_rank = (\<lambda>_ _. 0),
      src_connects = True, tgt_connects = True, backup_raises = False,
      src_exists = (\<lambda>_. False), src_structure = (\<lambda>_. []), src_fks = (\<lambda>_. []),
      src_indexes = (\<lambda>_. []), src_count = (\<lambda>_. 0), src_create_statement = (\<lambda>_. []),
      src_data = (\<lambda>_. []),
      tgt_exists = (\<lambda>_ _. False), tgt_structure = (\<lambda>_ _. []), tgt_fks = (\<lambda>_ _. []),
      tgt_indexes = (\<lambda>_ _. []), tgt_count = (\<lambda>_ _. 0),
      tgt_respond = (\<lambda>_ _. Db_ok), tgt_truncate = (\<lambda>_ _. True),
      tgt_insert = (\<lambda>_ _ _ _. True)\<rparr>"

definition orders_create :: string where
  "orders_create =
     str_join [CHR 0x0A]
       [''CREATE TABLE `orders` ('',
        ''  `id` int(11) NOT NULL,'',
        ''  `customer_id` int(11) NOT NULL,'',
        ''  PRIMARY KEY (`id`),'',
        ''  CONSTRAINT `fk_c` FOREIGN KEY (`customer_id`) REFERENCES `customers` (`id`)'',
        '') ENGINE=InnoDB'']"

definition orders_create_stripped :: string where
  "orders_create_stripped =
     str_join [CHR 0x0A]
       [''CREATE TABLE `orders` ('',
        ''  `id` int(11) NOT NULL,'',
        ''  `customer_id` int(11) NOT NULL,'',
        ''  PRIMARY KEY (`id`)) ENGINE=InnoDB'']"

text \<open>A composite index on \<open>users (name, email)\<close> that the target lacks.\<close>

definition name_email_index :: "index_row list" where
  "name_email_index =
     [\<lparr>Key_name = ''idx_name_email'', Non_unique = 1, Seq_in_index = 1, Column_name = ''name''\<rparr>,
      \<lparr>Key_name = ''idx_name_email'', Non_unique = 1, Seq_in_index = 2, Column_name = ''email''\<rparr>]"

definition index_world :: world where
  "index_world = quiet_world\<lparr>src_indexes := (\<lambda>_. name_email_index)\<rparr>"

text \<open>
  Concrete runs of the create phase: the target answers every statement with a database
  error, once with a foreign-key message and once with a syntax error.
\<close>

definition fk_message :: string where
  "fk_message = ''errno: 150 Foreign key constraint is incorrectly formed''"

definition syntax_message :: string where
  "syntax_message = ''1064 (42000): You have an error in your SQL syntax''"

definition fk_error_world :: world where
  "fk_error_world =
     quiet_world\<lparr>src_create_statement := (\<lambda>_. orders_create),
                 tgt_respond := (\<lambda>trace queries. Db_error fk_message)\<rparr>"

definition syntax_error_world :: world where
  "syntax_error_world =
     quiet_world\<lparr>src_exists := (\<lambda>_. True),
                 src_create_statement := (\<lambda>_. orders_create),
                 tgt_respond := (\<lambda>trace queries. Db_error syntax_message)\<rparr>"

definition orders_plan :: "plan_step list" where
  "orders_plan =
     [\<lparr>step_table = ''orders'', step_actions = [Create_table], is_maintain_table = False\<rparr>,
      \<lparr>step_table = ''customers'', step_actions = [Create_table], is_maintain_table = False\<rparr>]"

text \<open>A plan in which two tables each need their columns altered, and the first its foreign keys too.\<close>

definition interleaved_plan :: "plan_step list" where
  "interleaved_plan =
     [\<lparr>step_table = ''a'',
       step_actions = [Alter_table [Type_difference ''x'' ''bigint(20)'' ''int(11)''],
                       Update_foreign_keys [Missing_foreign_key ''b_id'' ''b'' ''id'']],
       is_maintain_table = False\<rparr>,
      \<lparr>step_table = ''b'',
       step_actions = [Alter_table [Type_difference ''y'' ''bigint(20)'' ''int(11)'']],
       is_maintain_table = False\<rparr>]"

text \<open>
  Two runs of the data pass over \<open>users\<close>. In the first the source holds two rows and the
  target accepts every batch. In the second the source holds 2001 equal rows and the
  target accepts a batch only when it is full, so that the third batch, of one row, is
  rejected.
\<close>

definition accepting_world :: world where
  "accepting_world =
     quiet_world\<lparr>src_exists := (\<lambda>_. True), tgt_exists := (\<lambda>_ _. True),
                 src_structure := (\<lambda>_. users_source),
                 src_data := (\<lambda>_. [[''1'', ''ann''], [''2'', ''bob'']])\<rparr>"

definition users_insert :: string where
  "users_insert =
     ''INSERT INTO users (`id`, `name`, `email`, `created_at`) VALUES (%s, %s, %s, %s)''"

definition full_batches_world :: world where
  "full_batches_world =
     quiet_world\<lparr>src_exists := (\<lambda>_. True), tgt_exists := (\<lambda>_ _. True),
                 src_structure := (\<lambda>_. users_source),
                 src_data := (\<lambda>_. replicate 2001 [''x'']),
                 tgt_insert := (\<lambda>trace table_name query batch. length batch = 1000)\<rparr>"

section \<open>Verification of the dependency scheduler\<close>

lemma fold_upd_lookup:
  "fold (\<lambda>k d. d(k \<mapsto> f k)) xs m = (\<lambda>k. if k \<in> set xs then Some (f k) else m k)"
  by (induction xs arbitrary: m) (auto simp: fun_eq_iff)

lemma build_dependencies_lookup:
  "build_dependencies fks tables t =
     (if t \<in> set tables then Some (table_deps fks tables t) else None)"
  by (simp add: build_dependencies_def fold_upd_lookup)

lemma dom_build_dependencies: "dom (build_dependencies fks tables) = set tables"
  by (auto simp: build_dependencies_lookup dom_def)

lemma no_deps_of_filter:
  "set xs \<subseteq> dom dependencies \<Longrightarrow>
   no_deps_of dependencies remaining xs =
     Inr (filter (\<lambda>t. \<not> blocked dependencies remaining t) xs)"
  by (induction xs) (auto simp: has_pending_def blocked_def split: option.splits)

lemma append_and_remove_filter:
  "distinct chosen \<Longrightarrow> set chosen \<subseteq> set r \<Longrightarrow>
   append_and_remove chosen (s, r) = Inr (s @ chosen, filter (\<lambda>x. x \<notin> set chosen) r)"
proof (induction chosen arbitrary: s r)
  case Nil
  then show ?case by simp
next
  case (Cons t ts)
  have sub: "set ts \<subseteq> set (removeAll t r)"
    using Cons.prems by auto
  have "append_and_remove ts (s @ [t], removeAll t r) =
          Inr ((s @ [t]) @ ts, filter (\<lambda>x. x \<notin> set ts) (removeAll t r))"
    using Cons.prems sub by (intro Cons.IH) simp_all
  moreover have "filter (\<lambda>x. x \<notin> set ts) (removeAll t r) = filter (\<lambda>x. x \<notin> set (t # ts)) r"
    by (induction r) auto
  ultimately show ?case using Cons.prems by simp
qed

lemma set_iter_set [simp]: "set (set_iter rank xs) = set xs"
  by (simp add: set_iter_def)

lemma set_iter_distinct [simp]: "distinct (set_iter rank xs) = distinct xs"
  by (simp add: set_iter_def)

lemma set_iter_Nil [simp]: "(set_iter rank xs = []) = (xs = [])"
  by (metis set_iter_set set_empty)

lemma chosen_of_subset: "set (chosen_of rank dependencies r) \<subseteq> set r"
proof -
  have "set (take 1 (set_iter rank r)) \<subseteq> set r"
    using set_take_subset [of 1 "set_iter rank r"] by simp
  then show ?thesis by (auto simp: chosen_of_def Let_def)
qed

lemma chosen_of_distinct: "distinct r \<Longrightarrow> distinct (chosen_of rank dependencies r)"
  by (simp add: chosen_of_def Let_def)

lemma chosen_of_nonempty: "r \<noteq> [] \<Longrightarrow> chosen_of rank dependencies r \<noteq> []"
  by (cases "set_iter rank r") (auto simp: chosen_of_def Let_def)

lemma sort_step_chosen:
  assumes "r \<noteq> []" "distinct r" "set r \<subseteq> dom dependencies"
  shows "sort_step rank dependencies (s, r) =
           Inr (s @ chosen_of rank dependencies r,
                filter (\<lambda>x. x \<notin> set (chosen_of rank dependencies r)) r)"
proof -
  have nd: "no_deps_of dependencies r (set_iter rank r) =
              Inr (filter (\<lambda>t. \<not> blocked dependencies r t) (set_iter rank r))"
    using assms(3) by (intro no_deps_of_filter) simp
  have fr: "first_remaining (set_iter rank r) = Inr (take 1 (set_iter rank r))"
    using assms(1) by (cases "set_iter rank r") (auto simp: first_remaining_def)
  have "sort_step rank dependencies (s, r) =
          append_and_remove (chosen_of rank dependencies r) (s, r)"
    by (simp add: sort_step_def nd fr chosen_of_def Let_def)
  also have "\<dots> = Inr (s @ chosen_of rank dependencies r,
                filter (\<lambda>x. x \<notin> set (chosen_of rank dependencies r)) r)"
    using assms(2) by (intro append_and_remove_filter chosen_of_distinct chosen_of_subset)
  finally show ?thesis .
qed

lemma sort_loop_permutes:
  "distinct r \<Longrightarrow> set r \<subseteq> dom dependencies \<Longrightarrow>
   \<exists>rest. sort_loop rank dependencies s r = Inr (s @ rest) \<and> distinct rest \<and> set rest = set r"
proof (induction rank dependencies s r rule: sort_loop.induct)
  case (1 rank dependencies s r)
  show ?case
  proof (cases "r = []")
    case True
    then show ?thesis by (simp add: sort_loop.simps)
  next
    case False
    let ?c = "chosen_of rank dependencies r"
    let ?r' = "filter (\<lambda>x. x \<notin> set ?c) r"
    have step: "sort_step rank dependencies (s, r) = Inr (s @ ?c, ?r')"
      using False "1.prems" by (intro sort_step_chosen)
    have "\<exists>rest. sort_loop rank dependencies (fst (s @ ?c, ?r')) (snd (s @ ?c, ?r'))
             = Inr (fst (s @ ?c, ?r') @ rest) \<and> distinct rest \<and> set rest = set (snd (s @ ?c, ?r'))"
      using "1.prems" by (intro "1.IH" [OF False step]) auto
    then obtain rest where
      run: "sort_loop rank dependencies (s @ ?c) ?r' = Inr (s @ ?c @ rest)"
      and d: "distinct rest" and st: "set rest = set ?r'"
      by auto
    have "sort_loop rank dependencies s r = Inr (s @ ?c @ rest)"
      using False step run by (subst sort_loop.simps) simp
    moreover have "distinct (?c @ rest)"
      using d st chosen_of_distinct [OF "1.prems"(1)] by auto
    moreover have "set (?c @ rest) = set r"
      using st chosen_of_subset [of rank dependencies r] by auto
    ultimately show ?thesis by blast
  qed
qed

text \<open>
  Claim C3. For every input list of table names, every dependency lookup (cycles
  included) and every iteration order of the set \<open>remaining\<close>, the scheduler
  returns (the loop is a total function) and its output lists every input table exactly
  once: the output has no duplicates, the same elements as the input, and as many
  entries as the input has different tables.
\<close>

theorem sort_tables_by_dependency_permutation:
  "distinct (sort_tables_by_dependency rank fks tables) \<and>
   set (sort_tables_by_dependency rank fks tables) = set tables \<and>
   length (sort_tables_by_dependency rank fks tables) = length (remdups tables)"
proof -
  obtain rest where
    "sort_loop rank (build_dependencies fks tables) [] (remdups tables) = Inr ([] @ rest)"
    "distinct rest" "set rest = set (remdups tables)"
    using sort_loop_permutes [of "remdups tables" "build_dependencies fks tables" rank "[]"]
    by (auto simp: dom_build_dependencies)
  then have out: "sort_tables_by_dependency rank fks tables = rest"
    and d: "distinct rest" and s: "set rest = set tables"
    by (simp_all add: sort_tables_by_dependency_def)
  have "length rest = card (set rest)" using d by (simp add: distinct_card)
  also have "\<dots> = length (remdups tables)" by (simp add: s length_remdups_card_conv)
  finally show ?thesis using out d s by simp
qed

section \<open>Verification of the dependency order\<close>

lemma takeWhile_skip_prefix:
  "b \<notin> set c \<Longrightarrow> takeWhile (\<lambda>x. x \<noteq> b) (c @ xs) = c @ takeWhile (\<lambda>x. x \<noteq> b) xs"
  by (rule takeWhile_append2) auto

lemma before_in_append_left:
  "a \<in> set c \<Longrightarrow> b \<notin> set c \<Longrightarrow> b \<in> set xs \<Longrightarrow> before_in (c @ xs) a b"
  by (simp add: before_in_def takeWhile_skip_prefix)

lemma before_in_append_right:
  "b \<notin> set c \<Longrightarrow> before_in xs a b \<Longrightarrow> before_in (c @ xs) a b"
  by (simp add: before_in_def takeWhile_skip_prefix)

lemma blocked_build_dependencies:
  "z \<in> set tables \<Longrightarrow>
   blocked (build_dependencies fks tables) r z =
     (\<exists>d \<in> set (table_deps fks tables z). d \<in> set r)"
  by (simp add: blocked_def build_dependencies_lookup list_ex_iff)

lemma some_table_ready:
  assumes T: "T \<in> set r" and sub: "set r \<subseteq> set tables"
    and nocycle: "\<forall>x. (T, x) \<in> (dep_rel fks tables)\<^sup>* \<longrightarrow> (x, x) \<notin> (dep_rel fks tables)\<^sup>+"
  shows "\<exists>z \<in> set r. \<not> blocked (build_dependencies fks tables) r z"
proof -
  define Rr where "Rr = {(a, b). (a, b) \<in> dep_rel fks tables \<and> a \<in> set r \<and> b \<in> set r}"
  define S where "S = Rr\<^sup>* `` {T}"
  define Q where "Q = {(y, x). (x, y) \<in> Rr \<and> x \<in> S}"
  have Rr_sub: "Rr \<subseteq> dep_rel fks tables" by (auto simp: Rr_def)
  have S_in_r: "x \<in> set r" if "x \<in> S" for x
  proof -
    from that have "(T, x) \<in> Rr\<^sup>*" by (simp add: S_def)
    then show ?thesis
      by (cases rule: rtranclE) (use T in \<open>auto simp: Rr_def\<close>)
  qed
  have S_step: "y \<in> S" if "x \<in> S" "(x, y) \<in> Rr" for x y
    using that by (auto simp: S_def intro: rtrancl_into_rtrancl)
  have "Q \<subseteq> set r \<times> set r" by (auto simp: Q_def Rr_def)
  then have finQ: "finite Q" by (rule finite_subset) simp
  have acycQ: "acyclic Q"
  proof (rule acyclicI, intro allI notI)
    fix x assume loop: "(x, x) \<in> Q\<^sup>+"
    have "Q \<subseteq> Rr\<inverse>" by (auto simp: Q_def)
    then have "Q\<^sup>+ \<subseteq> (Rr\<inverse>)\<^sup>+" by (rule trancl_mono_subset)
    with loop have "(x, x) \<in> (Rr\<inverse>)\<^sup>+" by blast
    then have "(x, x) \<in> Rr\<^sup>+" by (simp add: trancl_converse)
    then have cyc: "(x, x) \<in> (dep_rel fks tables)\<^sup>+"
      using trancl_mono_subset [OF Rr_sub] by blast
    from loop have "x \<in> S"
      by (cases rule: tranclE) (auto simp: Q_def)
    then have "(T, x) \<in> Rr\<^sup>*" by (simp add: S_def)
    then have "(T, x) \<in> (dep_rel fks tables)\<^sup>*"
      using rtrancl_mono [OF Rr_sub] by blast
    with nocycle cyc show False by blast
  qed
  have "wf Q" using finQ acycQ by (rule finite_acyclic_wf)
  moreover have "T \<in> S" by (simp add: S_def)
  ultimately obtain z where zS: "z \<in> S" and zmin: "\<And>y. (y, z) \<in> Q \<Longrightarrow> y \<notin> S"
    by (rule wfE_min) blast
  have zr: "z \<in> set r" using zS by (rule S_in_r)
  have "\<not> blocked (build_dependencies fks tables) r z"
  proof
    assume "blocked (build_dependencies fks tables) r z"
    moreover have "z \<in> set tables" using zr sub by auto
    ultimately obtain d where d: "d \<in> set (table_deps fks tables z)" "d \<in> set r"
      by (auto simp: blocked_build_dependencies)
    then have zd: "(z, d) \<in> Rr" using zr sub by (auto simp: Rr_def dep_rel_def)
    then have "(d, z) \<in> Q" using zS by (simp add: Q_def)
    then have "d \<notin> S" by (rule zmin)
    moreover have "d \<in> S" using zS zd by (rule S_step)
    ultimately show False by contradiction
  qed
  with zr show ?thesis by blast
qed

lemma sort_loop_dependency_first:
  assumes "distinct r" "set r \<subseteq> set tables" "T \<in> set r" "d \<in> set r"
    and "d \<in> set (table_deps fks tables T)"
    and "\<forall>x. (T, x) \<in> (dep_rel fks tables)\<^sup>* \<longrightarrow> (x, x) \<notin> (dep_rel fks tables)\<^sup>+"
  shows "\<exists>rest. sort_loop rank (build_dependencies fks tables) s r = Inr (s @ rest) \<and>
           set rest = set r \<and> before_in rest d T"
  using assms
proof (induction rank "build_dependencies fks tables" s r rule: sort_loop.induct)
  case (1 rank s r)
  let ?deps = "build_dependencies fks tables"
  let ?c = "chosen_of rank ?deps r"
  let ?r' = "filter (\<lambda>x. x \<notin> set ?c) r"
  have ne: "r \<noteq> []" using "1.prems"(3) by auto
  have dom: "set r \<subseteq> dom ?deps" using "1.prems"(2) by (simp add: dom_build_dependencies)
  have step: "sort_step rank ?deps (s, r) = Inr (s @ ?c, ?r')"
    using ne "1.prems"(1) dom by (rule sort_step_chosen)
  have unfold: "sort_loop rank ?deps s r = sort_loop rank ?deps (s @ ?c) ?r'"
    using ne step by (subst sort_loop.simps) simp
  have Ttab: "T \<in> set tables" using "1.prems"(2,3) by auto
  have Tblocked: "blocked ?deps r T"
    using "1.prems"(4,5) Ttab by (auto simp: blocked_build_dependencies)
  obtain z where "z \<in> set r" "\<not> blocked ?deps r z"
    using some_table_ready [OF "1.prems"(3) "1.prems"(2) "1.prems"(6)] by blast
  then have ready: "filter (\<lambda>t. \<not> blocked ?deps r t) (set_iter rank r) \<noteq> []"
    by (auto simp: filter_empty_conv)
  then have c_eq: "?c = filter (\<lambda>t. \<not> blocked ?deps r t) (set_iter rank r)"
    by (simp add: chosen_of_def Let_def)
  have Tnc: "T \<notin> set ?c" using Tblocked by (simp add: c_eq)
  have Tr': "T \<in> set ?r'" using Tnc "1.prems"(3) by simp
  have csub: "set ?c \<subseteq> set r" by (rule chosen_of_subset)
  show ?case
  proof (cases "d \<in> set ?c")
    case True
    obtain rest where run: "sort_loop rank ?deps (s @ ?c) ?r' = Inr ((s @ ?c) @ rest)"
      and st: "set rest = set ?r'"
      using sort_loop_permutes [of ?r' ?deps rank "s @ ?c"] "1.prems"(1) dom by auto
    have "before_in (?c @ rest) d T"
      using True Tnc Tr' st by (intro before_in_append_left) simp_all
    moreover have "set (?c @ rest) = set r" using st csub by auto
    ultimately show ?thesis using unfold run by auto
  next
    case False
    have "\<exists>rest. sort_loop rank ?deps (fst (s @ ?c, ?r')) (snd (s @ ?c, ?r'))
             = Inr (fst (s @ ?c, ?r') @ rest) \<and> set rest = set (snd (s @ ?c, ?r'))
               \<and> before_in rest d T"
      using "1.prems" False Tr'
      by (intro "1.hyps" [OF ne step]) auto
    then obtain rest where run: "sort_loop rank ?deps (s @ ?c) ?r' = Inr ((s @ ?c) @ rest)"
      and st: "set rest = set ?r'" and bf: "before_in rest d T"
      by auto
    have "before_in (?c @ rest) d T"
      using Tnc bf by (rule before_in_append_right)
    moreover have "set (?c @ rest) = set r" using st csub by auto
    ultimately show ?thesis using unfold run by auto
  qed
qed

text \<open>
  Claim C6, as stated, fails. Table \<open>t\<close> references \<open>d\<close>, and \<open>d\<close> and \<open>e\<close> reference each
  other; no dependency path leads from \<open>d\<close> back to \<open>t\<close>. No table is free of pending
  dependencies in the first pass, so the loop takes the first table of the set, which
  can be \<open>t\<close>: \<open>t\<close> is then placed before its dependency \<open>d\<close>.
\<close>

theorem forced_pick_precedes_dependency_counterexample:
  "''t'' \<in> set [''t'', ''d'', ''e''] \<and>
   set (table_deps cyclic_fks [''t'', ''d'', ''e''] ''t'') = {''d''} \<and>
   (''d'', ''t'') \<notin> (dep_rel cyclic_fks [''t'', ''d'', ''e''])\<^sup>* \<and>
   \<not> before_in (sort_tables_by_dependency (\<lambda>_ _. 0) cyclic_fks [''t'', ''d'', ''e'']) ''d'' ''t''"
proof -
  have reach: "x \<in> {''d'', ''e''}"
    if "(''d'', x) \<in> (dep_rel cyclic_fks [''t'', ''d'', ''e''])\<^sup>*" for x
    using that
    by (induction rule: rtrancl_induct)
       (auto simp: dep_rel_def table_deps_def cyclic_fks_def fk_to_def split: if_splits)
  have "(''d'', ''t'') \<notin> (dep_rel cyclic_fks [''t'', ''d'', ''e''])\<^sup>*"
    using reach [of "''t''"] by auto
  moreover have "set (table_deps cyclic_fks [''t'', ''d'', ''e''] ''t'') = {''d''}"
    by (simp add: table_deps_def cyclic_fks_def fk_to_def)
  moreover have "sort_tables_by_dependency (\<lambda>_ _. 0) cyclic_fks [''t'', ''d'', ''e'']
                   = [''t'', ''d'', ''e'']"
    by code_simp
  ultimately show ?thesis by (simp add: before_in_def)
qed

text \<open>
  Claim C6, amended. If no table that can be reached from \<open>T\<close> along in-scope
  dependencies (\<open>T\<close> included) lies on a dependency cycle, then every in-scope
  dependency of \<open>T\<close> stands before \<open>T\<close> in the scheduler's output, for every iteration
  order of the set.
\<close>

theorem dependencies_first_without_reachable_cycle:
  assumes "T \<in> set tables"
    and "d \<in> set (table_deps fks tables T)"
    and "cycle_free_from fks tables T"
  shows "before_in (sort_tables_by_dependency rank fks tables) d T"
proof -
  have dt: "d \<in> set tables" using assms(2) by (auto simp: table_deps_def)
  have nocycle: "\<forall>x. (T, x) \<in> (dep_rel fks tables)\<^sup>* \<longrightarrow> (x, x) \<notin> (dep_rel fks tables)\<^sup>+"
    using assms(3) by (simp add: cycle_free_from_def)
  obtain rest where
    "sort_loop rank (build_dependencies fks tables) [] (remdups tables) = Inr ([] @ rest)"
    "before_in rest d T"
    using sort_loop_dependency_first [of "remdups tables" tables T d fks rank "[]"]
      assms(1,2) nocycle dt
    by auto
  then show ?thesis by (simp add: sort_tables_by_dependency_def)
qed

theorem dependencies_first_without_reachable_cycle_witness:
  "''orders'' \<in> set [''orders'', ''customers''] \<and>
   ''customers'' \<in> set (table_deps shop_fks [''orders'', ''customers''] ''orders'') \<and>
   cycle_free_from shop_fks [''orders'', ''customers''] ''orders'' \<and>
   before_in (sort_tables_by_dependency (\<lambda>_ _. 0) shop_fks [''orders'', ''customers''])
     ''customers'' ''orders''"
proof -
  have h1: "''orders'' \<in> set [''orders'', ''customers'']" by simp
  have h2: "''customers'' \<in> set (table_deps shop_fks [''orders'', ''customers''] ''orders'')"
    by (simp add: table_deps_def shop_fks_def fk_to_def)
  have rel: "dep_rel shop_fks [''orders'', ''customers''] = {(''orders'', ''customers'')}"
    by (auto simp: dep_rel_def table_deps_def shop_fks_def fk_to_def split: if_splits)
  have h3: "cycle_free_from shop_fks [''orders'', ''customers''] ''orders''"
    unfolding cycle_free_from_def
  proof (intro allI impI notI)
    fix x assume "(x, x) \<in> (dep_rel shop_fks [''orders'', ''customers''])\<^sup>+"
    then have "(x, x) \<in> {(''orders'', ''customers'')}\<^sup>+" by (simp add: rel)
    moreover have "a = ''orders'' \<and> b = ''customers''"
      if "(a, b) \<in> {(''orders'', ''customers'')}\<^sup>+" for a b :: string
      using that by (induction rule: trancl_induct) auto
    ultimately have "x = ''orders'' \<and> x = ''customers''" by blast
    then have "''orders'' = ''customers''" by (elim conjE) (rule trans [OF sym])
    then show False by simp
  qed
  from dependencies_first_without_reachable_cycle [OF h1 h2 h3] h1 h2 h3
  show ?thesis by blast
qed

section \<open>Verification of the column position\<close>

lemma list_index_first:
  "i < length xs \<Longrightarrow> xs ! i = c \<Longrightarrow> \<forall>k<i. xs ! k \<noteq> c \<Longrightarrow> list_index xs c = Some i"
proof (induction xs arbitrary: i)
  case Nil
  then show ?case by simp
next
  case (Cons y ys)
  show ?case
  proof (cases i)
    case 0
    with Cons.prems show ?thesis by simp
  next
    case (Suc j)
    from Cons.prems Suc have "y \<noteq> c" by auto
    moreover have "list_index ys c = Some j"
      using Cons.prems Suc by (intro Cons.IH) auto
    ultimately show ?thesis using Suc by simp
  qed
qed

lemma scan_previous_none:
  "\<forall>j<n. src ! j \<notin> set tgt \<Longrightarrow> scan_previous src tgt n = ''FIRST''"
  by (induction n) simp_all

lemma scan_previous_nearest:
  "j < n \<Longrightarrow> src ! j \<in> set tgt \<Longrightarrow> \<forall>k. j < k \<and> k < n \<longrightarrow> src ! k \<notin> set tgt \<Longrightarrow>
   scan_previous src tgt n = ''AFTER `'' @ src ! j @ ''`''"
proof (induction n)
  case 0
  then show ?case by simp
next
  case (Suc n)
  show ?case
  proof (cases "j = n")
    case True
    with Suc.prems show ?thesis by simp
  next
    case False
    with Suc.prems have "j < n" and "src ! n \<notin> set tgt" by auto
    then show ?thesis using Suc by simp
  qed
qed

text \<open>
  Claim C7. The position is a function of the source order, the target order and the
  column name alone. For a column whose first position in the source order is \<open>i\<close>:
  it is \<open>FIRST\<close> when \<open>i = 0\<close>; it is \<open>AFTER\<close> the column at \<open>j\<close> when \<open>j < i\<close> is the
  nearest earlier position of the source order whose column exists in the target; and it
  is \<open>FIRST\<close> when no earlier column of the source order exists in the target.
\<close>

theorem get_column_position_nearest_earlier:
  assumes "i < length source_structure"
    and "map Field_col source_structure ! i = column_name"
    and "\<forall>k<i. map Field_col source_structure ! k \<noteq> column_name"
  shows "(i = 0 \<longrightarrow>
            get_column_position source_structure target_structure column_name = ''FIRST'') \<and>
         (\<forall>j<i. map Field_col source_structure ! j \<in> set (map Field_col target_structure) \<and>
                (\<forall>k. j < k \<and> k < i \<longrightarrow>
                   map Field_col source_structure ! k \<notin> set (map Field_col target_structure)) \<longrightarrow>
            get_column_position source_structure target_structure column_name
              = ''AFTER `'' @ map Field_col source_structure ! j @ ''`'') \<and>
         ((\<forall>j<i. map Field_col source_structure ! j \<notin> set (map Field_col target_structure)) \<longrightarrow>
            get_column_position source_structure target_structure column_name = ''FIRST'')"
proof -
  let ?src = "map Field_col source_structure"
  let ?tgt = "map Field_col target_structure"
  have len: "i < length ?src" using assms(1) by simp
  have mem: "column_name \<in> set ?src"
    using len assms(2) nth_mem by blast
  have idx: "list_index ?src column_name = Some i"
    using len assms(2,3) by (rule list_index_first)
  have pos: "get_column_position source_structure target_structure column_name =
               (if i = 0 then ''FIRST'' else scan_previous ?src ?tgt i)"
    using mem idx by (simp add: get_column_position_def Let_def del: set_map)
  show ?thesis
  proof (intro conjI allI impI)
    assume "i = 0"
    then show "get_column_position source_structure target_structure column_name = ''FIRST''"
      by (simp add: pos)
  next
    fix j
    assume "j < i" and
      "?src ! j \<in> set ?tgt \<and> (\<forall>k. j < k \<and> k < i \<longrightarrow> ?src ! k \<notin> set ?tgt)"
    then have "scan_previous ?src ?tgt i = ''AFTER `'' @ ?src ! j @ ''`''"
      by (intro scan_previous_nearest) blast+
    with \<open>j < i\<close> show "get_column_position source_structure target_structure column_name
              = ''AFTER `'' @ ?src ! j @ ''`''"
      by (simp add: pos)
  next
    assume "\<forall>j<i. ?src ! j \<notin> set ?tgt"
    then have "scan_previous ?src ?tgt i = ''FIRST''"
      by (rule scan_previous_none)
    then show "get_column_position source_structure target_structure column_name = ''FIRST''"
      by (simp add: pos)
  qed
qed

theorem get_column_position_nearest_earlier_witness:
  "get_column_position users_source users_target ''email'' = ''AFTER `name`''"
proof -
  have h1: "2 < length users_source" by (simp add: users_source_def)
  have h2: "map Field_col users_source ! 2 = ''email''"
    by (simp add: users_source_def col_def)
  have h3: "\<forall>k<2. map Field_col users_source ! k \<noteq> ''email''"
    by (simp add: users_source_def col_def less_Suc_eq numeral_2_eq_2)
  have near: "map Field_col users_source ! 1 \<in> set (map Field_col users_target) \<and>
     (\<forall>k. 1 < k \<and> k < 2 \<longrightarrow> map Field_col users_source ! k \<notin> set (map Field_col users_target))"
    by (simp add: users_source_def users_target_def col_def)
  from get_column_position_nearest_earlier [OF h1 h2 h3, of users_target]
  have "\<forall>j<2. map Field_col users_source ! j \<in> set (map Field_col users_target) \<and>
                (\<forall>k. j < k \<and> k < 2 \<longrightarrow>
                   map Field_col users_source ! k \<notin> set (map Field_col users_target)) \<longrightarrow>
            get_column_position users_source users_target ''email''
              = ''AFTER `'' @ map Field_col users_source ! j @ ''`''"
    by blast
  then have "get_column_position users_source users_target ''email''
              = ''AFTER `'' @ map Field_col users_source ! 1 @ ''`''"
    using near by (elim allE [of _ 1]) simp
  then show ?thesis by (simp add: users_source_def col_def)
qed

section \<open>Verification of the diff engine\<close>

lemma fold_update_distinct:
  "distinct (map fst d) \<Longrightarrow> distinct (map fst (fold (\<lambda>x d. AList.update (k x) (v x d) d) xs d))"
  by (induction xs arbitrary: d) (simp_all add: distinct_update)

lemma dict_by_field_distinct: "distinct (map fst (dict_by_field rows))"
  unfolding dict_by_field_def
  using fold_update_distinct [of "[]" Field_col "\<lambda>c d. c" rows] by simp

lemma dict_lookup_item:
  "distinct (map fst d) \<Longrightarrow> (k, v) \<in> set d \<Longrightarrow> map_of d k = Some v"
  by simp

lemma compare_structures_self: "compare_structures A A = []"
proof -
  have item: "map_of (dict_by_field A) k = Some v" if "(k, v) \<in> set (dict_by_field A)" for k v
    using dict_by_field_distinct that by (rule dict_lookup_item)
  show ?thesis
    by (auto simp: compare_structures_def Let_def item)
qed

lemma compare_foreign_keys_self: "compare_foreign_keys rank A A = []"
  by (simp add: compare_foreign_keys_def set_minus_def set_iter_def)

lemma compare_indexes_self: "compare_indexes A A = []"
proof -
  have "map_of (group_by_key_name A) k \<noteq> None" if "(k, v) \<in> set (group_by_key_name A)" for k v
    using that by (auto dest: weak_map_of_SomeI)
  then show ?thesis
    by (auto simp: compare_indexes_def Let_def)
qed

lemma set_compare_foreign_keys:
  "set (compare_foreign_keys rank S T) =
     (\<lambda>(c, t, rc). Missing_foreign_key c t rc) ` (fk_triple ` set S - fk_triple ` set T) \<union>
     (\<lambda>(c, t, rc). Extra_foreign_key c t rc) ` (fk_triple ` set T - fk_triple ` set S)"
proof -
  have "set (set_iter rank (set_minus (remdups (map fk_triple X)) (remdups (map fk_triple Y))))
          = fk_triple ` set X - fk_triple ` set Y" for X Y :: "fk_row list"
    by (auto simp: set_minus_def)
  then show ?thesis
    by (simp add: compare_foreign_keys_def Let_def)
qed

lemma missing_in_image:
  "Missing_foreign_key c t rc \<in> (\<lambda>(c, t, rc). Missing_foreign_key c t rc) ` X \<longleftrightarrow> (c, t, rc) \<in> X"
  "Missing_foreign_key c t rc \<notin> (\<lambda>(c, t, rc). Extra_foreign_key c t rc) ` X"
  "Extra_foreign_key c t rc \<in> (\<lambda>(c, t, rc). Extra_foreign_key c t rc) ` X \<longleftrightarrow> (c, t, rc) \<in> X"
  "Extra_foreign_key c t rc \<notin> (\<lambda>(c, t, rc). Missing_foreign_key c t rc) ` X"
  by (auto simp: image_iff intro!: bexI [where x = "(c, t, rc)"])

lemma missing_foreign_key_iff:
  "Missing_foreign_key c t rc \<in> set (compare_foreign_keys rank S T) \<longleftrightarrow>
     (c, t, rc) \<in> fk_triple ` set S \<and> (c, t, rc) \<notin> fk_triple ` set T"
  by (simp add: set_compare_foreign_keys missing_in_image)

lemma extra_foreign_key_iff:
  "Extra_foreign_key c t rc \<in> set (compare_foreign_keys rank S T) \<longleftrightarrow>
     (c, t, rc) \<in> fk_triple ` set T \<and> (c, t, rc) \<notin> fk_triple ` set S"
  by (simp add: set_compare_foreign_keys missing_in_image)

text \<open>
  Claim C4. Diffing a table schema against itself yields no difference: the column
  comparison (missing, extra, type, nullability, default and column order), the
  foreign-key comparison and the index comparison each return the empty list.
\<close>

theorem diff_self_empty:
  "compare_structures columns columns = [] \<and>
   compare_foreign_keys rank foreign_keys foreign_keys = [] \<and>
   compare_indexes indexes indexes = []"
  by (simp add: compare_structures_self compare_foreign_keys_self compare_indexes_self)

text \<open>
  Claim C5. For all schemas \<open>A\<close> and \<open>B\<close>, the column names reported missing by
  \<open>diff(A, B)\<close> are the column names reported extra by \<open>diff(B, A)\<close>; the same holds for
  the foreign keys, as triples of column, referenced table and referenced column, and
  for the index names. The iteration orders of the two foreign-key comparisons are
  independent.
\<close>

theorem missing_extra_duality:
  "{c. \<exists>d. Missing_column c d \<in> set (compare_structures A_columns B_columns)} =
     {c. \<exists>d. Extra_column c d \<in> set (compare_structures B_columns A_columns)} \<and>
   {(c, t, rc). Missing_foreign_key c t rc \<in> set (compare_foreign_keys rank A_fks B_fks)} =
     {(c, t, rc). Extra_foreign_key c t rc \<in> set (compare_foreign_keys rank' B_fks A_fks)} \<and>
   {n. \<exists>rows. Missing_index n rows \<in> set (compare_indexes A_indexes B_indexes)} =
     {n. \<exists>rows. Extra_index n rows \<in> set (compare_indexes B_indexes A_indexes)}"
proof (intro conjI)
  show "{c. \<exists>d. Missing_column c d \<in> set (compare_structures A_columns B_columns)} =
     {c. \<exists>d. Extra_column c d \<in> set (compare_structures B_columns A_columns)}"
    by (auto simp: compare_structures_def Let_def split: if_splits option.splits)
next
  show "{(c, t, rc). Missing_foreign_key c t rc \<in> set (compare_foreign_keys rank A_fks B_fks)} =
     {(c, t, rc). Extra_foreign_key c t rc \<in> set (compare_foreign_keys rank' B_fks A_fks)}"
    by (simp add: missing_foreign_key_iff extra_foreign_key_iff conj_commute)
next
  show "{n. \<exists>rows. Missing_index n rows \<in> set (compare_indexes A_indexes B_indexes)} =
     {n. \<exists>rows. Extra_index n rows \<in> set (compare_indexes B_indexes A_indexes)}"
    by (auto simp: compare_indexes_def Let_def split: if_splits)
qed

section \<open>Verification of the structure pass\<close>

lemma strip_foreign_keys_orders:
  "strip_foreign_keys orders_create = orders_create_stripped"
  by code_simp

lemma strip_foreign_keys_no_break_space:
  "strip_foreign_keys (''CREATE TABLE t (a int,'' @ [CHR 0xA0] @ '')'') = ''CREATE TABLE t (a int)''"
  by code_simp

text \<open>
  Claim C8 fails on the code. The diff engine reports the missing index with both of its
  rows, but \<open>_update_indexes\<close> reads the rows again and stops at the first one: the
  index it creates on the target has the first member column only. The uniqueness follows
  the flag of that first row.
\<close>

theorem update_indexes_composite_first_column_only:
  "compare_indexes name_email_index [] = [Missing_index ''idx_name_email'' name_email_index] \<and>
   update_indexes index_world ''users'' (compare_indexes name_email_index []) [] =
     (True, [Call ''users'' (Update_indexes [Missing_index ''idx_name_email'' name_email_index]),
             Sent [''CREATE INDEX idx_name_email ON users (name)''] Db_ok])"
  by code_simp

lemma run_statements_trace:
  "snd (run_statements w trace queries) = trace @ [Sent queries (tgt_respond w trace queries)]"
  by (simp add: run_statements_def Let_def split: db_response.splits)

lemma calls_of_append [simp]: "calls_of (xs @ ys) = calls_of xs @ calls_of ys"
  by (simp add: calls_of_def)

lemma calls_of_simps [simp]:
  "calls_of [] = []"
  "calls_of (Call t a # es) = Call t a # calls_of es"
  "calls_of (Call_add_missing_foreign_keys ts # es) = Call_add_missing_foreign_keys ts # calls_of es"
  "calls_of (Sent qs r # es) = calls_of es"
  by (simp_all add: calls_of_def)

lemma calls_run_statements [simp]: "calls_of (snd (run_statements w trace queries)) = calls_of trace"
  by (simp add: run_statements_trace)

lemma calls_execute_query [simp]: "calls_of (snd (execute_query w trace query)) = calls_of trace"
  by (simp add: execute_query_def)

lemma calls_run_if_any [simp]: "calls_of (snd (run_if_any w trace queries)) = calls_of trace"
proof (cases "queries = []")
  case True
  then show ?thesis by (simp add: run_if_any_def)
next
  case False
  obtain r tr where ex: "run_statements w trace queries = (r, tr)"
    by (cases "run_statements w trace queries")
  then have "calls_of tr = calls_of trace"
    using calls_run_statements [of w trace queries] by simp
  with False ex show ?thesis
    by (simp add: run_if_any_def execute_queries_def split: sum.splits bool.splits)
qed

lemma calls_create_table_without_foreign_keys [simp]:
  "calls_of (snd (create_table_without_foreign_keys w t stmt trace)) = calls_of trace"
proof -
  obtain r tr where ex: "execute_query w trace (strip_foreign_keys stmt) = (r, tr)"
    by (cases "execute_query w trace (strip_foreign_keys stmt)")
  then have "calls_of tr = calls_of trace"
    using calls_execute_query [of w trace "strip_foreign_keys stmt"] by simp
  with ex show ?thesis
    by (simp add: create_table_without_foreign_keys_def split: sum.splits bool.splits)
qed

lemma calls_create_table:
  "calls_of (snd (create_table w t trace)) = calls_of trace @ [Call t Create_table]"
proof -
  let ?t0 = "trace @ [Call t Create_table]"
  let ?stmt = "src_create_statement w t"
  obtain r tr where ex: "execute_query w ?t0 ?stmt = (r, tr)"
    by (cases "execute_query w ?t0 ?stmt")
  then have "calls_of tr = calls_of ?t0"
    using calls_execute_query [of w ?t0 ?stmt] by simp
  with ex show ?thesis
    by (simp add: create_table_def Let_def split: sum.splits bool.splits)
qed

lemma calls_alter_table:
  "calls_of (snd (alter_table w t ds trace)) = calls_of trace @ [Call t (Alter_table ds)]"
  by (simp add: alter_table_def Let_def)

lemma calls_update_foreign_keys:
  "calls_of (snd (update_foreign_keys w t ds trace)) = calls_of trace @ [Call t (Update_foreign_keys ds)]"
  by (simp add: update_foreign_keys_def Let_def)

lemma calls_update_indexes:
  "calls_of (snd (update_indexes w t ds trace)) = calls_of trace @ [Call t (Update_indexes ds)]"
  by (simp add: update_indexes_def Let_def)

lemma calls_apply_alter_action:
  "is_alter_action a \<Longrightarrow>
   calls_of (snd (apply_alter_action w (t, a) trace)) = calls_of trace @ [Call t a]"
  by (cases a) (simp_all add: calls_alter_table calls_update_foreign_keys calls_update_indexes)

lemma calls_add_foreign_keys [simp]:
  "calls_of (add_foreign_keys w t fks trace) = calls_of trace"
  by (induction w t fks trace rule: add_foreign_keys.induct) simp_all

lemma calls_add_missing_loop [simp]:
  "calls_of (add_missing_loop w tables trace) = calls_of trace"
  by (induction tables arbitrary: trace) simp_all

lemma calls_add_missing_foreign_keys:
  "calls_of (snd (add_missing_foreign_keys w tables trace)) =
     calls_of trace @ [Call_add_missing_foreign_keys tables]"
  by (simp add: add_missing_foreign_keys_def)

lemma calls_create_fold:
  "calls_of (fold (\<lambda>table_name tr. snd (create_table w table_name tr)) tables trace) =
     calls_of trace @ map (\<lambda>t. Call t Create_table) tables"
  by (induction tables arbitrary: trace) (simp_all add: calls_create_table)

lemma calls_alter_fold:
  "\<forall>ta \<in> set tas. is_alter_action (snd ta) \<Longrightarrow>
   calls_of (fold (\<lambda>ta tr. snd (apply_alter_action w ta tr)) tas trace) =
     calls_of trace @ map (\<lambda>(t, a). Call t a) tas"
proof (induction tas arbitrary: trace)
  case Nil
  then show ?case by simp
next
  case (Cons ta tas)
  obtain t a where ta: "ta = (t, a)" by (cases ta)
  with Cons.prems have "is_alter_action a" by simp
  then have "calls_of (snd (apply_alter_action w (t, a) trace)) = calls_of trace @ [Call t a]"
    by (rule calls_apply_alter_action)
  with Cons ta show ?case by simp
qed

lemma tables_to_alter_are_alter_actions:
  "\<forall>ta \<in> set (tables_to_alter_of plan). is_alter_action (snd ta)"
  by (auto simp: tables_to_alter_of_def)

lemma execute_plan_calls:
  "calls_of (snd (execute_plan w plan trace)) =
     calls_of trace
     @ map (\<lambda>t. Call t Create_table) (scheduled_creates w plan)
     @ map (\<lambda>(t, a). Call t a) (tables_to_alter_of plan)
     @ [Call_add_missing_foreign_keys (scheduled_creates w plan)]"
proof -
  have eq: "(if tables_to_create_of plan \<noteq> []
             then sort_tables_by_dependency (table_rank w) (src_fks w) (tables_to_create_of plan)
             else tables_to_create_of plan) = scheduled_creates w plan"
    by (simp add: scheduled_creates_def)
  show ?thesis
    unfolding execute_plan_def Let_def eq
    by (simp add: calls_add_missing_foreign_keys calls_create_fold
          calls_alter_fold [OF tables_to_alter_are_alter_actions])
qed

lemma create_attempts_append [simp]:
  "create_attempts (xs @ ys) = create_attempts xs @ create_attempts ys"
  by (simp add: create_attempts_def)

lemma create_attempts_calls: "create_attempts (calls_of trace) = create_attempts trace"
proof (induction trace)
  case Nil
  then show ?case by (simp add: create_attempts_def)
next
  case (Cons e es)
  then show ?case
    by (cases e) (simp_all add: create_attempts_def calls_of_def)
qed

lemma create_attempts_creates:
  "create_attempts (map (\<lambda>t. Call t Create_table) ts) = ts"
  by (induction ts) (simp_all add: create_attempts_def)

lemma create_attempts_alters:
  "\<forall>ta \<in> set tas. is_alter_action (snd ta) \<Longrightarrow>
   create_attempts (map (\<lambda>(t, a). Call t a) tas) = []"
proof (induction tas)
  case Nil
  then show ?case by (simp add: create_attempts_def)
next
  case (Cons ta tas)
  obtain t a where ta: "ta = (t, a)" by (cases ta)
  with Cons.prems have "is_alter_action a" by simp
  then have "create_attempt (Call t a) = []" by (cases a) simp_all
  with Cons ta show ?case by (simp add: create_attempts_def)
qed

lemma execute_plan_create_attempts:
  "create_attempts (snd (execute_plan w plan trace)) =
     create_attempts trace @ scheduled_creates w plan"
proof -
  have "create_attempts (snd (execute_plan w plan trace)) =
          create_attempts (calls_of (snd (execute_plan w plan trace)))"
    by (simp add: create_attempts_calls)
  also have "\<dots> = create_attempts (calls_of trace) @ scheduled_creates w plan"
    by (simp add: execute_plan_calls create_attempts_creates
          create_attempts_alters [OF tables_to_alter_are_alter_actions])
       (simp add: create_attempts_def)
  finally show ?thesis by (simp add: create_attempts_calls)
qed

lemma create_table_database_error:
  assumes "src_create_statement w t \<noteq> []"
    and "tgt_respond w (trace @ [Call t Create_table]) [src_create_statement w t] = Db_error msg"
  shows "create_table w t trace =
     (False, trace @ [Call t Create_table, Sent [src_create_statement w t] (Db_error msg)])"
  using assms
  by (simp add: create_table_def Let_def execute_query_def run_statements_def)

text \<open>
  A violation of a foreign key that the database reports is such an error: the statement
  is sent once and the result is \<open>False\<close>.
\<close>

lemma create_table_foreign_key_error_run:
  "str_contains ''Foreign key constraint'' fk_message \<and>
   create_table fk_error_world ''orders'' [] =
     (False, [Call ''orders'' Create_table, Sent [orders_create] (Db_error fk_message)])"
  by code_simp

lemma replicate_structure_result:
  "fst (replicate_structure w tables maintain_tables create_backup trace) =
     (\<not> (create_backup \<and> backup_raises w))"
  by (simp add: replicate_structure_def execute_plan_def Let_def)

text \<open>
  Claim C1, as stated, fails. The target rejects both \<open>CREATE\<close> statements of the plan
  with a syntax error, a failure that is no foreign-key violation. The run is not
  aborted: the result of \<open>_create_table\<close> is dropped, the creation of the second table is
  attempted all the same, the pass over the pending foreign keys follows, and both the
  execution of the plan and \<open>replicate_structure\<close> return \<open>True\<close>.
\<close>

theorem create_phase_counterexample:
  "\<not> str_contains ''Foreign key constraint'' syntax_message \<and>
   create_table syntax_error_world ''orders'' [] =
     (False, [Call ''orders'' Create_table, Sent [orders_create] (Db_error syntax_message)]) \<and>
   execute_plan syntax_error_world orders_plan [] =
     (True, [Call ''orders'' Create_table, Sent [orders_create] (Db_error syntax_message),
             Call ''customers'' Create_table, Sent [orders_create] (Db_error syntax_message),
             Call_add_missing_foreign_keys [''orders'', ''customers'']]) \<and>
   fst (replicate_structure syntax_error_world [''orders'', ''customers''] [] False []) = True"
  by code_simp

text \<open>
  Claim C1, amended. No failure of the create phase aborts the run. Whatever the target
  answers to the \<open>CREATE\<close> statements, the creation of every table of the create list is
  attempted, in the scheduler's order, the execution of the plan returns \<open>True\<close>, and
  \<open>replicate_structure\<close> returns \<open>False\<close> only when the backup before it raised.
\<close>

theorem create_phase_never_aborts:
  "create_attempts (snd (execute_plan w plan trace)) =
     create_attempts trace @ scheduled_creates w plan \<and>
   fst (execute_plan w plan trace) = True \<and>
   fst (replicate_structure w tables maintain_tables create_backup trace) =
     (\<not> (create_backup \<and> backup_raises w)) \<and>
   create_attempts (snd (replicate_structure w tables maintain_tables False trace)) =
     create_attempts trace
     @ scheduled_creates w (get_replication_plan w trace tables maintain_tables)"
proof (intro conjI)
  show "create_attempts (snd (execute_plan w plan trace)) =
     create_attempts trace @ scheduled_creates w plan"
    by (rule execute_plan_create_attempts)
next
  show "fst (execute_plan w plan trace) = True"
    by (simp add: execute_plan_def Let_def)
next
  show "fst (replicate_structure w tables maintain_tables create_backup trace) =
     (\<not> (create_backup \<and> backup_raises w))"
    by (rule replicate_structure_result)
next
  show "create_attempts (snd (replicate_structure w tables maintain_tables False trace)) =
     create_attempts trace
     @ scheduled_creates w (get_replication_plan w trace tables maintain_tables)"
    by (simp add: replicate_structure_def execute_plan_create_attempts)
qed

lemma extends_by_refl [simp]: "extends_by X tr tr"
  by (simp add: extends_by_def)

lemma extends_by_snoc: "extends_by X tr0 tr \<Longrightarrow> \<not> X e \<Longrightarrow> extends_by X tr0 (tr @ [e])"
  by (auto simp: extends_by_def)

lemma extends_by_trans: "extends_by X a b \<Longrightarrow> extends_by X b c \<Longrightarrow> extends_by X a c"
  by (auto simp: extends_by_def)

lemma snd_run_if_any:
  "snd (run_if_any w tr qs) = (if qs = [] then tr else snd (run_statements w tr qs))"
  by (simp add: run_if_any_def execute_queries_def split: prod.splits sum.splits bool.splits)

lemma snd_create_table_without_foreign_keys:
  "snd (create_table_without_foreign_keys w t stmt tr) =
     snd (run_statements w tr [strip_foreign_keys stmt])"
  by (simp add: create_table_without_foreign_keys_def execute_query_def
        split: prod.splits sum.splits bool.splits)

lemma ext_run_statements:
  "extends_by is_data_event tr0 tr \<Longrightarrow> extends_by is_data_event tr0 (snd (run_statements w tr qs))"
  by (simp add: run_statements_trace extends_by_snoc)

lemma ext_run_if_any:
  "extends_by is_data_event tr0 tr \<Longrightarrow> extends_by is_data_event tr0 (snd (run_if_any w tr qs))"
  by (simp add: snd_run_if_any ext_run_statements)

lemma ext_create_table:
  assumes "extends_by is_data_event tr0 tr"
  shows "extends_by is_data_event tr0 (snd (create_table w t tr))"
proof -
  let ?t0 = "tr @ [Call t Create_table]"
  let ?stmt = "src_create_statement w t"
  have e0: "extends_by is_data_event tr0 ?t0"
    using assms by (rule extends_by_snoc) simp
  have e1: "extends_by is_data_event tr0 (snd (run_statements w ?t0 [?stmt]))"
    using e0 by (rule ext_run_statements)
  have e2: "extends_by is_data_event tr0
              (snd (run_statements w (snd (run_statements w ?t0 [?stmt])) qs))" for qs
    using e1 by (rule ext_run_statements)
  have "snd (create_table w t tr) = ?t0 \<or>
        snd (create_table w t tr) = snd (run_statements w ?t0 [?stmt]) \<or>
        snd (create_table w t tr) =
          snd (run_statements w (snd (run_statements w ?t0 [?stmt])) [strip_foreign_keys ?stmt])"
    by (auto simp: create_table_def Let_def execute_query_def
          snd_create_table_without_foreign_keys split: prod.splits sum.splits bool.splits)
  with e0 e1 e2 show ?thesis by metis
qed

lemma ext_apply_alter_action:
  assumes "extends_by is_data_event tr0 tr"
  shows "extends_by is_data_event tr0 (snd (apply_alter_action w ta tr))"
proof -
  obtain t a where ta: "ta = (t, a)" by (cases ta)
  have e0: "extends_by is_data_event tr0 (tr @ [Call t a])"
    using assms by (rule extends_by_snoc) simp
  show ?thesis
    unfolding ta using assms e0
    by (cases a)
       (simp_all add: alter_table_def update_foreign_keys_def update_indexes_def Let_def
          ext_run_if_any)
qed

lemma ext_add_foreign_keys:
  "extends_by is_data_event tr0 tr \<Longrightarrow>
   extends_by is_data_event tr0 (add_foreign_keys w t fks tr)"
proof (induction w t fks tr rule: add_foreign_keys.induct)
  case (1 w table_name trace)
  then show ?case by simp
next
  case (2 w table_name column ref_table ref_column rest trace)
  let ?q = "''ALTER TABLE '' @ table_name @ '' ADD CONSTRAINT '' @ ''fk_'' @ table_name @ ''_''
                @ column @ ''_'' @ ref_table @ '' FOREIGN KEY ('' @ column @ '') REFERENCES ''
                @ ref_table @ ''('' @ ref_column @ '')''"
  let ?tr' = "if tgt_exists w trace ref_table then snd (execute_query w trace ?q) else trace"
  have "extends_by is_data_event tr0 ?tr'"
    using "2.prems" by (simp add: execute_query_def ext_run_statements del: append.simps)
  then have "extends_by is_data_event tr0 (add_foreign_keys w table_name rest ?tr')"
    by (rule "2.IH")
  then show ?case by (simp only: add_foreign_keys.simps)
qed

lemma ext_add_missing_loop:
  "extends_by is_data_event tr0 tr \<Longrightarrow>
   extends_by is_data_event tr0 (add_missing_loop w tables tr)"
  by (induction tables arbitrary: tr) (simp_all add: ext_add_foreign_keys)

lemma ext_create_fold:
  "extends_by is_data_event tr0 tr \<Longrightarrow>
   extends_by is_data_event tr0 (fold (\<lambda>table_name tr. snd (create_table w table_name tr)) tables tr)"
  by (induction tables arbitrary: tr) (simp_all add: ext_create_table)

lemma ext_alter_fold:
  "extends_by is_data_event tr0 tr \<Longrightarrow>
   extends_by is_data_event tr0 (fold (\<lambda>ta tr. snd (apply_alter_action w ta tr)) tas tr)"
  by (induction tas arbitrary: tr) (simp_all add: ext_apply_alter_action)

lemma ext_execute_plan:
  "extends_by is_data_event tr (snd (execute_plan w plan tr))"
proof -
  have "extends_by is_data_event tr
          (add_missing_loop w cs
             (fold (\<lambda>ta tr. snd (apply_alter_action w ta tr)) tas
                (fold (\<lambda>table_name tr. snd (create_table w table_name tr)) cs tr)
              @ [Call_add_missing_foreign_keys cs]))" for cs tas
    by (intro ext_add_missing_loop extends_by_snoc ext_alter_fold ext_create_fold) simp_all
  then show ?thesis
    by (simp add: execute_plan_def Let_def add_missing_foreign_keys_def)
qed

lemma ext_replicate_structure:
  "extends_by is_data_event tr (snd (replicate_structure w tables maintain b tr))"
  by (simp add: replicate_structure_def ext_execute_plan)

lemma ext_insert_batches:
  "extends_by is_structure_event tr0 tr \<Longrightarrow>
   extends_by is_structure_event tr0 (snd (insert_batches w t q bs tr))"
proof (induction bs arbitrary: tr)
  case Nil
  then show ?case by simp
next
  case (Cons b bs)
  have "extends_by is_structure_event tr0 (tr @ [Insert_batch t q b ok])" for ok
    using Cons.prems by (rule extends_by_snoc) simp
  then show ?case
    by (simp add: Let_def Cons.IH)
qed

lemma ext_insert_data:
  "extends_by is_structure_event tr0 tr \<Longrightarrow>
   extends_by is_structure_event tr0 (snd (insert_data w t cols data tr))"
  by (simp add: insert_data_def ext_insert_batches)

lemma ext_replicate_table:
  assumes "extends_by is_structure_event tr0 tr"
  shows "extends_by is_structure_event tr0 (snd (replicate_table w t tr))"
proof -
  have warn: "extends_by is_structure_event tr0 (tr @ [Warning x])" for x
    using assms by (rule extends_by_snoc) simp
  have trunc: "extends_by is_structure_event tr0 (tr @ [Truncate t ok])" for ok
    using assms by (rule extends_by_snoc) simp
  have ins: "extends_by is_structure_event tr0
               (snd (insert_data w t cols data (tr @ [Truncate t ok])))" for cols data ok
    using trunc by (rule ext_insert_data)
  show ?thesis
    by (simp add: replicate_table_def Let_def truncate_table_def warn trunc ins
          split: bool.splits)
qed

lemma ext_replicate_data:
  "extends_by is_structure_event tr0 tr \<Longrightarrow>
   extends_by is_structure_event tr0 (snd (replicate_data w tables tr))"
proof (induction tables arbitrary: tr)
  case Nil
  then show ?case by simp
next
  case (Cons t ts)
  obtain ok tr' where step: "replicate_table w t tr = (ok, tr')"
    by (cases "replicate_table w t tr")
  have e: "extends_by is_structure_event tr0 tr'"
    using ext_replicate_table [OF Cons.prems, of w t] step by simp
  show ?case
    using step e Cons.IH [OF e] by (cases ok) simp_all
qed

text \<open>The trace of \<open>full_replication\<close> is a structure part followed by a data part.\<close>

lemma full_replication_split:
  "\<exists>s d. snd (full_replication w all_tables maintain_tables create_backup trace) = trace @ s @ d \<and>
         filter is_data_event s = [] \<and> filter is_structure_event d = []"
proof -
  let ?rs = "replicate_structure w all_tables maintain_tables create_backup trace"
  obtain s where s: "snd ?rs = trace @ s" "filter is_data_event s = []"
    using ext_replicate_structure [of trace w all_tables maintain_tables create_backup]
    by (auto simp: extends_by_def)
  have "extends_by is_structure_event (snd ?rs) (snd (replicate_data w maintain_tables (snd ?rs)))"
    by (rule ext_replicate_data) simp
  then obtain d where d: "snd (replicate_data w maintain_tables (snd ?rs)) = snd ?rs @ d"
      "filter is_structure_event d = []"
    by (auto simp: extends_by_def)
  have "snd (full_replication w all_tables maintain_tables create_backup trace)
          \<in> {trace, snd ?rs, snd (replicate_data w maintain_tables (snd ?rs))}"
    by (auto simp: full_replication_def split: prod.splits bool.splits)
  then consider
      "snd (full_replication w all_tables maintain_tables create_backup trace) = trace @ [] @ []"
    | "snd (full_replication w all_tables maintain_tables create_backup trace) = trace @ s @ []"
    | "snd (full_replication w all_tables maintain_tables create_backup trace) = trace @ s @ d"
    using s d by auto
  then show ?thesis
  proof cases
    case 1
    have "filter is_data_event [] = [] \<and> filter is_structure_event [] = []" by simp
    with 1 show ?thesis by blast
  next
    case 2
    have "filter is_structure_event [] = []" by simp
    with 2 s(2) show ?thesis by blast
  next
    case 3
    with s(2) d(2) show ?thesis by blast
  qed
qed

text \<open>
  Claim C2, as stated, fails. The alterations of columns, foreign keys and indexes are
  applied in one pass over the plan, table by table: the foreign keys of table \<open>a\<close> are
  reconciled before the columns of table \<open>b\<close> are altered.
\<close>

theorem interleaved_phases_counterexample:
  "calls_of (snd (execute_plan quiet_world interleaved_plan [])) =
     [Call ''a'' (Alter_table [Type_difference ''x'' ''bigint(20)'' ''int(11)'']),
      Call ''a'' (Update_foreign_keys [Missing_foreign_key ''b_id'' ''b'' ''id'']),
      Call ''b'' (Alter_table [Type_difference ''y'' ''bigint(20)'' ''int(11)'']),
      Call_add_missing_foreign_keys []] \<and>
   before_in (calls_of (snd (execute_plan quiet_world interleaved_plan [])))
     (Call ''a'' (Update_foreign_keys [Missing_foreign_key ''b_id'' ''b'' ''id'']))
     (Call ''b'' (Alter_table [Type_difference ''y'' ''bigint(20)'' ''int(11)'']))"
  by code_simp

text \<open>
  Claim C2, amended. The execution of a plan makes its handler calls in three passes:
  first every \<open>CreateTable\<close> action, the tables in the scheduler's order; then the
  \<open>AlterColumns\<close>, \<open>ReconcileForeignKeys\<close> and \<open>ReconcileIndexes\<close> actions in a single
  pass in the order of the plan, step by step and within a step in the order of its
  actions; last the pass that adds the pending foreign keys of the created tables. The
  \<open>ReplicateData\<close> actions are not executed by it: in \<open>full_replication\<close> the trace is a
  structure part without any event of the data pass, followed by a data part without
  any event of the structure pass.
\<close>

theorem structure_pass_order:
  "calls_of (snd (execute_plan w plan trace)) =
     calls_of trace
     @ map (\<lambda>t. Call t Create_table) (scheduled_creates w plan)
     @ map (\<lambda>(t, a). Call t a) (tables_to_alter_of plan)
     @ [Call_add_missing_foreign_keys (scheduled_creates w plan)] \<and>
   (\<exists>s d. snd (full_replication w all_tables maintain_tables create_backup trace) = trace @ s @ d \<and>
          filter is_data_event s = [] \<and> filter is_structure_event d = [])"
  using execute_plan_calls full_replication_split by blast

section \<open>Verification of the data pass\<close>

lemma batch_size_pos: "0 < batch_size"
  by (simp add: batch_size_def)

lemma div_add_divisor:
  fixes a k :: nat
  shows "0 < k \<Longrightarrow> (a + k) div k = Suc (a div k)"
  using div_add_self2 [of k a] by auto

lemma ceil_div_step:
  fixes k i n :: nat
  assumes "0 < k" "i < n"
  shows "Suc ((n - (i + k) + (k - 1)) div k) = (n - i + (k - 1)) div k"
proof (cases "i + k \<le> n")
  case True
  define a where "a = n - (i + k) + (k - 1)"
  have "n - i + (k - 1) = a + k" using True by (simp add: a_def)
  then have "(n - i + (k - 1)) div k = (a + k) div k" by (rule arg_cong)
  also have "\<dots> = Suc (a div k)" using assms(1) by (rule div_add_divisor)
  finally show ?thesis by (simp only: a_def)
next
  case False
  then have z: "n - (i + k) = 0" by simp
  obtain m where m: "n - i = Suc m" "m < k"
    using assms(2) False by (cases "n - i") auto
  have "n - i + (k - 1) = m + k" using m assms(1) by simp
  then have "(n - i + (k - 1)) div k = (m + k) div k" by (rule arg_cong)
  also have "\<dots> = Suc (m div k)" using assms(1) by (rule div_add_divisor)
  also have "\<dots> = Suc 0" using m(2) by simp
  finally have r: "(n - i + (k - 1)) div k = Suc 0" .
  have "(k - 1) div k = 0" using assms(1) by simp
  then have "(n - (i + k) + (k - 1)) div k = 0" by (simp only: z add_0)
  with r show ?thesis by (simp only:)
qed

lemma concat_batches_from: "concat (batches_from i data) = drop i data"
proof (induction i data rule: batches_from.induct)
  case (1 i data)
  show ?case
  proof (cases "i < length data")
    case True
    have "drop (i + batch_size) data = drop batch_size (drop i data)"
      by (simp add: add.commute)
    then have "take batch_size (drop i data) @ drop (i + batch_size) data = drop i data"
      by (simp only: append_take_drop_id)
    with True "1.IH" show ?thesis
      by (subst batches_from.simps) simp
  next
    case False
    then show ?thesis by (subst batches_from.simps) simp
  qed
qed

lemma batches_from_sizes:
  "b \<in> set (batches_from i data) \<Longrightarrow> b \<noteq> [] \<and> length b \<le> batch_size"
proof (induction i data rule: batches_from.induct)
  case (1 i data)
  show ?case
  proof (cases "i < length data")
    case True
    from "1.prems" True
    have "b = take batch_size (drop i data) \<or> b \<in> set (batches_from (i + batch_size) data)"
      by (subst (asm) batches_from.simps) simp
    then show ?thesis
    proof
      assume "b = take batch_size (drop i data)"
      with True batch_size_pos show ?thesis by simp
    next
      assume "b \<in> set (batches_from (i + batch_size) data)"
      with True show ?thesis by (rule "1.IH")
    qed
  next
    case False
    with "1.prems" show ?thesis by (subst (asm) batches_from.simps) simp
  qed
qed

lemma length_batches_from:
  "length (batches_from i data) = (length data - i + (batch_size - 1)) div batch_size"
proof (induction i data rule: batches_from.induct)
  case (1 i data)
  show ?case
  proof (cases "i < length data")
    case True
    have "length (batches_from i data) = Suc (length (batches_from (i + batch_size) data))"
      using True by (subst batches_from.simps) simp
    also have "\<dots> = Suc ((length data - (i + batch_size) + (batch_size - 1)) div batch_size)"
      using "1.IH" [OF True] by simp
    also have "\<dots> = (length data - i + (batch_size - 1)) div batch_size"
      using ceil_div_step [OF batch_size_pos True] by simp
    finally show ?thesis .
  next
    case False
    then have "length data - i = 0" by simp
    moreover have "(batch_size - 1) div batch_size = 0"
      using batch_size_pos by simp
    ultimately show ?thesis
      using False by (subst batches_from.simps) simp
  qed
qed

lemma insert_batches_prefix:
  "\<exists>k\<le>length bs.
     (\<forall>j<k. tgt_insert w (tr @ map (\<lambda>b. Insert_batch t q b True) (take j bs)) t q (bs ! j)) \<and>
     (k < length bs \<longrightarrow>
        \<not> tgt_insert w (tr @ map (\<lambda>b. Insert_batch t q b True) (take k bs)) t q (bs ! k)) \<and>
     insert_batches w t q bs tr =
       (k = length bs,
        tr @ map (\<lambda>b. Insert_batch t q b True) (take k bs)
           @ (if k < length bs then [Insert_batch t q (bs ! k) False] else []))"
proof (induction bs arbitrary: tr)
  case Nil
  then show ?case by simp
next
  case (Cons b bs)
  let ?ins = "\<lambda>b. Insert_batch t q b True"
  show ?case
  proof (cases "tgt_insert w tr t q b")
    case False
    have "(0::nat) \<le> length (b # bs)" by simp
    moreover have "\<forall>j<0. tgt_insert w (tr @ map ?ins (take j (b # bs))) t q ((b # bs) ! j)"
      by simp
    moreover have "0 < length (b # bs) \<longrightarrow>
        \<not> tgt_insert w (tr @ map ?ins (take 0 (b # bs))) t q ((b # bs) ! 0)"
      using False by simp
    moreover have "insert_batches w t q (b # bs) tr =
        (0 = length (b # bs),
         tr @ map ?ins (take 0 (b # bs))
            @ (if 0 < length (b # bs) then [Insert_batch t q ((b # bs) ! 0) False] else []))"
      using False by (simp add: Let_def)
    ultimately show ?thesis by blast
  next
    case True
    let ?tr' = "tr @ [Insert_batch t q b True]"
    obtain k where k: "k \<le> length bs"
      and acc: "\<forall>j<k. tgt_insert w (?tr' @ map ?ins (take j bs)) t q (bs ! j)"
      and rej: "k < length bs \<longrightarrow> \<not> tgt_insert w (?tr' @ map ?ins (take k bs)) t q (bs ! k)"
      and run: "insert_batches w t q bs ?tr' =
         (k = length bs,
          ?tr' @ map ?ins (take k bs)
             @ (if k < length bs then [Insert_batch t q (bs ! k) False] else []))"
      using Cons.IH [of ?tr'] by blast
    have "Suc k \<le> length (b # bs)" using k by simp
    moreover have "\<forall>j<Suc k. tgt_insert w (tr @ map ?ins (take j (b # bs))) t q ((b # bs) ! j)"
    proof (intro allI impI)
      fix j assume "j < Suc k"
      show "tgt_insert w (tr @ map ?ins (take j (b # bs))) t q ((b # bs) ! j)"
      proof (cases j)
        case 0
        with True show ?thesis by simp
      next
        case (Suc j')
        with \<open>j < Suc k\<close> have "j' < k" by simp
        with acc have "tgt_insert w (?tr' @ map ?ins (take j' bs)) t q (bs ! j')" by blast
        with Suc show ?thesis by simp
      qed
    qed
    moreover have "Suc k < length (b # bs) \<longrightarrow>
        \<not> tgt_insert w (tr @ map ?ins (take (Suc k) (b # bs))) t q ((b # bs) ! Suc k)"
      using rej by simp
    moreover have "insert_batches w t q (b # bs) tr =
        (Suc k = length (b # bs),
         tr @ map ?ins (take (Suc k) (b # bs))
            @ (if Suc k < length (b # bs) then [Insert_batch t q ((b # bs) ! Suc k) False] else []))"
      using True run by (simp add: Let_def)
    ultimately show ?thesis by blast
  qed
qed

lemma insert_batches_accepted:
  "\<forall>tr b. tgt_insert w tr t q b \<Longrightarrow>
   insert_batches w t q bs tr = (True, tr @ map (\<lambda>b. Insert_batch t q b True) bs)"
  by (induction bs arbitrary: tr) (simp_all add: Let_def)

lemma batches_from_Nil: "batches_from 0 [] = []"
  by (subst batches_from.simps) simp

lemma insert_data_accepted:
  assumes "\<forall>tr b. tgt_insert w tr t (insert_query t cols) b"
  shows "insert_data w t cols data trace =
     (True, trace @ map (\<lambda>b. Insert_batch t (insert_query t cols) b True) (batches_from 0 data))"
proof (cases "data = []")
  case True
  then show ?thesis by (simp add: insert_data_def batches_from_Nil)
next
  case False
  then show ?thesis
    using insert_batches_accepted [OF assms] by (simp add: insert_data_def)
qed

lemma committed_rows_append:
  "committed_rows t (xs @ ys) = fold (apply_event t) ys (committed_rows t xs)"
  by (simp add: committed_rows_def)

lemma fold_committed_batches:
  "fold (apply_event t) (map (\<lambda>b. Insert_batch t q b True) bs) rows = rows @ concat bs"
  by (induction bs arbitrary: rows) simp_all

lemma committed_rows_batches:
  "committed_rows t (tr @ map (\<lambda>b. Insert_batch t q b True) bs
                        @ (if c then [Insert_batch t q x False] else []))
     = committed_rows t tr @ concat bs"
  by (simp add: committed_rows_append fold_committed_batches)

lemma committed_rows_truncate: "committed_rows t (tr @ [Truncate t True]) = []"
  by (simp add: committed_rows_append)

lemma insert_data_prefix:
  "\<exists>k\<le>length (batches_from 0 data).
     (\<forall>j<k. tgt_insert w
               (trace @ map (\<lambda>b. Insert_batch t (insert_query t cols) b True)
                            (take j (batches_from 0 data)))
               t (insert_query t cols) (batches_from 0 data ! j)) \<and>
     (k < length (batches_from 0 data) \<longrightarrow>
        \<not> tgt_insert w
             (trace @ map (\<lambda>b. Insert_batch t (insert_query t cols) b True)
                          (take k (batches_from 0 data)))
             t (insert_query t cols) (batches_from 0 data ! k)) \<and>
     insert_data w t cols data trace =
       (k = length (batches_from 0 data),
        trace @ map (\<lambda>b. Insert_batch t (insert_query t cols) b True)
                    (take k (batches_from 0 data))
              @ (if k < length (batches_from 0 data)
                 then [Insert_batch t (insert_query t cols) (batches_from 0 data ! k) False]
                 else []))"
proof (cases "data = []")
  case True
  then show ?thesis by (simp add: insert_data_def batches_from_Nil)
next
  case False
  then have "insert_data w t cols data trace =
      insert_batches w t (insert_query t cols) (batches_from 0 data) trace"
    by (simp add: insert_data_def)
  then show ?thesis
    using insert_batches_prefix [of "batches_from 0 data" w trace t "insert_query t cols"]
    by simp
qed

lemma replicate_table_copy:
  assumes "src_exists w t" "tgt_exists w trace t" "src_structure w t \<noteq> []"
    and "tgt_truncate w trace t"
  shows "replicate_table w t trace =
     (if src_data w t \<noteq> []
      then insert_data w t (map Field_col (src_structure w t)) (src_data w t)
             (trace @ [Truncate t True])
      else (True, trace @ [Truncate t True]))"
  using assms by (simp add: replicate_table_def Let_def truncate_table_def)

lemma big_batches:
  "batches_from 0 (replicate 2001 r) = [replicate 1000 r, replicate 1000 r, [r]]"
proof -
  have b3: "batches_from 3000 (replicate 2001 r) = []"
    by (subst batches_from.simps) simp
  have b2: "batches_from 2000 (replicate 2001 r) = [[r]]"
    by (subst batches_from.simps) (simp add: batch_size_def b3)
  have b1: "batches_from 1000 (replicate 2001 r) = [replicate 1000 r, [r]]"
    by (subst batches_from.simps) (simp add: batch_size_def b2)
  show ?thesis
    by (subst batches_from.simps) (simp add: batch_size_def b1)
qed

text \<open>
  Claim C9. The rows are cut into \<open>ceiling(N / 1000)\<close> batches of at most 1000 rows that
  cover all rows in order. Each batch is one \<open>Insert_batch\<close> event, a transaction of its
  own, and the target is asked for each in turn: the copy commits exactly the batches
  before the first one that the target rejects and stops there with the result \<open>False\<close>,
  and the rows of the committed batches stay in the table. When the target accepts every
  batch, all are committed and the table gains exactly the rows. In \<open>replicate_data\<close> a
  failed clearing or a failed copy ends the whole pass with \<open>False\<close>; with an accepting
  target the cleared table holds exactly the source rows afterwards; and with no source
  rows nothing is inserted and the cleared table stays empty.
\<close>

theorem data_copier_batches:
  "concat (batches_from 0 data) = data \<and>
   length (batches_from 0 data) = (length data + 999) div 1000 \<and>
   (\<forall>b \<in> set (batches_from 0 data). b \<noteq> [] \<and> length b \<le> 1000) \<and>
   (\<exists>k\<le>length (batches_from 0 data).
      (\<forall>j<k. tgt_insert w
                (trace @ committed t (insert_query t cols) (take j (batches_from 0 data)))
                t (insert_query t cols) (batches_from 0 data ! j)) \<and>
      (k < length (batches_from 0 data) \<longrightarrow>
         \<not> tgt_insert w
              (trace @ committed t (insert_query t cols) (take k (batches_from 0 data)))
              t (insert_query t cols) (batches_from 0 data ! k)) \<and>
      insert_data w t cols data trace =
        (k = length (batches_from 0 data),
         trace @ committed t (insert_query t cols) (take k (batches_from 0 data))
               @ (if k < length (batches_from 0 data)
                  then [Insert_batch t (insert_query t cols) (batches_from 0 data ! k) False]
                  else [])) \<and>
      committed_rows t (snd (insert_data w t cols data trace)) =
        committed_rows t trace @ concat (take k (batches_from 0 data))) \<and>
   ((\<forall>tr b. tgt_insert w tr t (insert_query t cols) b) \<longrightarrow>
      insert_data w t cols data trace =
        (True, trace @ committed t (insert_query t cols) (batches_from 0 data)) \<and>
      committed_rows t (snd (insert_data w t cols data trace)) = committed_rows t trace @ data) \<and>
   (src_exists w t \<and> tgt_exists w trace t \<and> src_structure w t \<noteq> [] \<longrightarrow>
      (\<not> tgt_truncate w trace t \<longrightarrow>
         replicate_data w (t # rest) trace = (False, trace @ [Truncate t False])) \<and>
      (tgt_truncate w trace t \<longrightarrow>
         replicate_table w t trace =
           (if src_data w t = [] then (True, trace @ [Truncate t True])
            else insert_data w t (map Field_col (src_structure w t)) (src_data w t)
                   (trace @ [Truncate t True])) \<and>
         (\<not> fst (insert_data w t (map Field_col (src_structure w t)) (src_data w t)
                  (trace @ [Truncate t True])) \<longrightarrow>
            replicate_data w (t # rest) trace =
              (False, snd (insert_data w t (map Field_col (src_structure w t)) (src_data w t)
                             (trace @ [Truncate t True])))) \<and>
         ((\<forall>tr b. tgt_insert w tr t
                    (insert_query t (map Field_col (src_structure w t))) b) \<longrightarrow>
            replicate_table w t trace =
              (True, trace @ Truncate t True
                       # committed t (insert_query t (map Field_col (src_structure w t)))
                           (batches_from 0 (src_data w t))) \<and>
            committed_rows t (snd (replicate_table w t trace)) = src_data w t) \<and>
         (fst (replicate_table w t trace) \<longrightarrow>
            committed_rows t (snd (replicate_table w t trace)) = src_data w t) \<and>
         (src_data w t = [] \<longrightarrow>
            replicate_table w t trace = (True, trace @ [Truncate t True]))))"
proof -
  let ?bs = "batches_from 0 data"
  let ?q = "insert_query t cols"
  let ?cols = "map Field_col (src_structure w t)"
  let ?tr1 = "trace @ [Truncate t True]"
  let ?ins = "insert_data w t ?cols (src_data w t) ?tr1"
  have c1: "concat ?bs = data"
    by (simp add: concat_batches_from)
  have c2: "length ?bs = (length data + 999) div 1000"
    by (simp add: length_batches_from batch_size_def)
  have c3: "\<forall>b \<in> set ?bs. b \<noteq> [] \<and> length b \<le> 1000"
  proof
    fix b assume "b \<in> set ?bs"
    then have "b \<noteq> [] \<and> length b \<le> batch_size" by (rule batches_from_sizes)
    then show "b \<noteq> [] \<and> length b \<le> 1000" by (simp add: batch_size_def)
  qed
  have c4: "\<exists>k\<le>length ?bs.
      (\<forall>j<k. tgt_insert w (trace @ committed t ?q (take j ?bs)) t ?q (?bs ! j)) \<and>
      (k < length ?bs \<longrightarrow> \<not> tgt_insert w (trace @ committed t ?q (take k ?bs)) t ?q (?bs ! k)) \<and>
      insert_data w t cols data trace =
        (k = length ?bs,
         trace @ committed t ?q (take k ?bs)
               @ (if k < length ?bs then [Insert_batch t ?q (?bs ! k) False] else [])) \<and>
      committed_rows t (snd (insert_data w t cols data trace)) =
        committed_rows t trace @ concat (take k ?bs)"
  proof -
    obtain k where k: "k \<le> length ?bs"
      and acc: "\<forall>j<k. tgt_insert w (trace @ committed t ?q (take j ?bs)) t ?q (?bs ! j)"
      and rej: "k < length ?bs \<longrightarrow>
                  \<not> tgt_insert w (trace @ committed t ?q (take k ?bs)) t ?q (?bs ! k)"
      and run: "insert_data w t cols data trace =
        (k = length ?bs,
         trace @ committed t ?q (take k ?bs)
               @ (if k < length ?bs then [Insert_batch t ?q (?bs ! k) False] else []))"
      using insert_data_prefix [of data w trace t cols] unfolding committed_def by blast
    have "committed_rows t (snd (insert_data w t cols data trace)) =
            committed_rows t trace @ concat (take k ?bs)"
      unfolding run snd_conv committed_def by (rule committed_rows_batches)
    with k acc rej run show ?thesis by blast
  qed
  have c5: "(\<forall>tr b. tgt_insert w tr t ?q b) \<longrightarrow>
      insert_data w t cols data trace = (True, trace @ committed t ?q ?bs) \<and>
      committed_rows t (snd (insert_data w t cols data trace)) = committed_rows t trace @ data"
  proof
    assume all: "\<forall>tr b. tgt_insert w tr t ?q b"
    have run: "insert_data w t cols data trace = (True, trace @ committed t ?q ?bs)"
      unfolding committed_def using all by (rule insert_data_accepted)
    have "committed_rows t (trace @ committed t ?q ?bs) = committed_rows t trace @ concat ?bs"
      by (simp add: committed_def committed_rows_append fold_committed_batches)
    with run c1 show "insert_data w t cols data trace = (True, trace @ committed t ?q ?bs) \<and>
      committed_rows t (snd (insert_data w t cols data trace)) = committed_rows t trace @ data"
      by simp
  qed
  have c6: "src_exists w t \<and> tgt_exists w trace t \<and> src_structure w t \<noteq> [] \<longrightarrow>
      (\<not> tgt_truncate w trace t \<longrightarrow>
         replicate_data w (t # rest) trace = (False, trace @ [Truncate t False])) \<and>
      (tgt_truncate w trace t \<longrightarrow>
         replicate_table w t trace =
           (if src_data w t = [] then (True, ?tr1) else ?ins) \<and>
         (\<not> fst ?ins \<longrightarrow> replicate_data w (t # rest) trace = (False, snd ?ins)) \<and>
         ((\<forall>tr b. tgt_insert w tr t (insert_query t ?cols) b) \<longrightarrow>
            replicate_table w t trace =
              (True, trace @ Truncate t True
                       # committed t (insert_query t ?cols) (batches_from 0 (src_data w t))) \<and>
            committed_rows t (snd (replicate_table w t trace)) = src_data w t) \<and>
         (fst (replicate_table w t trace) \<longrightarrow>
            committed_rows t (snd (replicate_table w t trace)) = src_data w t) \<and>
         (src_data w t = [] \<longrightarrow> replicate_table w t trace = (True, ?tr1)))"
  proof (intro impI conjI)
    assume pre: "src_exists w t \<and> tgt_exists w trace t \<and> src_structure w t \<noteq> []"
      and "\<not> tgt_truncate w trace t"
    then have "replicate_table w t trace = (False, trace @ [Truncate t False])"
      by (simp add: replicate_table_def Let_def truncate_table_def)
    then show "replicate_data w (t # rest) trace = (False, trace @ [Truncate t False])"
      by simp
  next
    assume pre: "src_exists w t \<and> tgt_exists w trace t \<and> src_structure w t \<noteq> []"
      and tr: "tgt_truncate w trace t"
    then show "replicate_table w t trace = (if src_data w t = [] then (True, ?tr1) else ?ins)"
      by (simp add: replicate_table_copy)
  next
    assume pre: "src_exists w t \<and> tgt_exists w trace t \<and> src_structure w t \<noteq> []"
      and tr: "tgt_truncate w trace t" and failed: "\<not> fst ?ins"
    have "src_data w t \<noteq> []"
      using failed by (auto simp: insert_data_def)
    then have rt: "replicate_table w t trace = ?ins"
      using pre tr by (simp add: replicate_table_copy)
    obtain tr' where ins: "?ins = (False, tr')"
      using failed by (cases ?ins) simp
    have "replicate_data w (t # rest) trace = (False, tr')"
      by (simp add: rt ins)
    then show "replicate_data w (t # rest) trace = (False, snd ?ins)"
      by (simp add: ins)
  next
    assume pre: "src_exists w t \<and> tgt_exists w trace t \<and> src_structure w t \<noteq> []"
      and tr: "tgt_truncate w trace t"
      and all: "\<forall>tr b. tgt_insert w tr t (insert_query t ?cols) b"
    have run: "?ins = (True, ?tr1 @ map (\<lambda>b. Insert_batch t (insert_query t ?cols) b True)
                                     (batches_from 0 (src_data w t)))"
      using all by (rule insert_data_accepted)
    show rt: "replicate_table w t trace =
              (True, trace @ Truncate t True
                       # committed t (insert_query t ?cols) (batches_from 0 (src_data w t)))"
    proof (cases "src_data w t = []")
      case True
      then show ?thesis
        using pre tr by (simp add: replicate_table_copy committed_def batches_from_Nil)
    next
      case False
      then have "replicate_table w t trace = ?ins"
        using pre tr by (simp add: replicate_table_copy)
      then show ?thesis by (simp add: run committed_def)
    qed
    have "committed_rows t (?tr1 @ committed t (insert_query t ?cols) (batches_from 0 (src_data w t)))
            = committed_rows t ?tr1 @ concat (batches_from 0 (src_data w t))"
      by (simp add: committed_def committed_rows_append fold_committed_batches)
    then show "committed_rows t (snd (replicate_table w t trace)) = src_data w t"
      by (simp add: rt committed_rows_truncate concat_batches_from)
  next
    assume pre: "src_exists w t \<and> tgt_exists w trace t \<and> src_structure w t \<noteq> []"
      and tr: "tgt_truncate w trace t"
      and ok: "fst (replicate_table w t trace)"
    show "committed_rows t (snd (replicate_table w t trace)) = src_data w t"
    proof (cases "src_data w t = []")
      case True
      then show ?thesis
        using pre tr by (simp add: replicate_table_copy committed_rows_truncate)
    next
      case False
      then have rt: "replicate_table w t trace = ?ins"
        using pre tr by (simp add: replicate_table_copy)
      let ?sb = "batches_from 0 (src_data w t)"
      obtain k where k: "k \<le> length ?sb"
        and run: "?ins =
          (k = length ?sb,
           ?tr1 @ map (\<lambda>b. Insert_batch t (insert_query t ?cols) b True) (take k ?sb)
                @ (if k < length ?sb
                   then [Insert_batch t (insert_query t ?cols) (?sb ! k) False] else []))"
        using insert_data_prefix [of "src_data w t" w ?tr1 t ?cols] by blast
      from ok rt run have all: "k = length ?sb" by simp
      have "committed_rows t (snd (replicate_table w t trace)) =
              committed_rows t ?tr1 @ concat (take k ?sb)"
        unfolding rt run snd_conv by (rule committed_rows_batches)
      then show ?thesis
        by (simp add: all committed_rows_truncate concat_batches_from)
    qed
  next
    assume "src_exists w t \<and> tgt_exists w trace t \<and> src_structure w t \<noteq> []"
      and "tgt_truncate w trace t" and "src_data w t = []"
    then show "replicate_table w t trace = (True, ?tr1)"
      by (simp add: replicate_table_copy)
  qed
  from c1 c2 c3 c4 c5 c6 show ?thesis by (intro conjI)
qed

theorem data_copier_batches_witness:
  "replicate_data accepting_world [''users''] [] =
     (True, [Truncate ''users'' True,
             Insert_batch ''users'' users_insert [[''1'', ''ann''], [''2'', ''bob'']] True]) \<and>
   committed_rows ''users'' (snd (replicate_data accepting_world [''users''] [])) =
     [[''1'', ''ann''], [''2'', ''bob'']] \<and>
   replicate_data full_batches_world [''users'', ''orders''] [] =
     (False, [Truncate ''users'' True,
              Insert_batch ''users'' users_insert (replicate 1000 [''x'']) True,
              Insert_batch ''users'' users_insert (replicate 1000 [''x'']) True,
              Insert_batch ''users'' users_insert [[''x'']] False]) \<and>
   committed_rows ''users'' (snd (replicate_data full_batches_world [''users'', ''orders''] [])) =
     replicate 2000 [''x'']"
proof -
  have q: "insert_query ''users'' (map Field_col users_source) = users_insert"
    by code_simp
  have pre_a: "src_exists accepting_world ''users'' \<and> tgt_exists accepting_world [] ''users'' \<and>
               src_structure accepting_world ''users'' \<noteq> []"
    by code_simp
  have tr_a: "tgt_truncate accepting_world [] ''users''"
    by code_simp
  have all_a: "\<forall>tr b. tgt_insert accepting_world tr ''users''
                 (insert_query ''users'' (map Field_col (src_structure accepting_world ''users''))) b"
    by (simp add: accepting_world_def quiet_world_def)
  have bs_a: "batches_from 0 (src_data accepting_world ''users'') =
                [[[''1'', ''ann''], [''2'', ''bob'']]]"
    by code_simp
  have cols_a: "src_structure accepting_world ''users'' = users_source"
    by (simp add: accepting_world_def)
  from data_copier_batches [where w = accepting_world and t = "''users''" and trace = "[]"]
    pre_a tr_a all_a
  have step_a: "replicate_table accepting_world ''users'' [] =
      (True, [] @ Truncate ''users'' True
               # committed ''users''
                   (insert_query ''users'' (map Field_col (src_structure accepting_world ''users'')))
                   (batches_from 0 (src_data accepting_world ''users'')))"
    and rows_a: "committed_rows ''users'' (snd (replicate_table accepting_world ''users'' [])) =
                   src_data accepting_world ''users''"
    by blast+
  have step_a': "replicate_table accepting_world ''users'' [] =
      (True, [Truncate ''users'' True,
              Insert_batch ''users'' users_insert [[''1'', ''ann''], [''2'', ''bob'']] True])"
    using step_a by (simp add: bs_a cols_a q committed_def)
  have run_a: "replicate_data accepting_world [''users''] [] =
      (True, [Truncate ''users'' True,
              Insert_batch ''users'' users_insert [[''1'', ''ann''], [''2'', ''bob'']] True])"
    by (simp add: step_a')
  have src_a: "src_data accepting_world ''users'' = [[''1'', ''ann''], [''2'', ''bob'']]"
    by (simp add: accepting_world_def)
  have "committed_rows ''users''
          [Truncate ''users'' True,
           Insert_batch ''users'' users_insert [[''1'', ''ann''], [''2'', ''bob'']] True] =
        [[''1'', ''ann''], [''2'', ''bob'']]"
    using rows_a unfolding step_a' snd_conv src_a .
  then have rows_a':
    "committed_rows ''users'' (snd (replicate_data accepting_world [''users''] [])) =
       [[''1'', ''ann''], [''2'', ''bob'']]"
    unfolding run_a snd_conv .
  let ?ins = "insert_data full_batches_world ''users''
                (map Field_col (src_structure full_batches_world ''users''))
                (src_data full_batches_world ''users'') ([] @ [Truncate ''users'' True])"
  have pre_f: "src_exists full_batches_world ''users'' \<and> tgt_exists full_batches_world [] ''users'' \<and>
               src_structure full_batches_world ''users'' \<noteq> []"
    by code_simp
  have tr_f: "tgt_truncate full_batches_world [] ''users''"
    by code_simp
  have ins: "?ins =
     (False, [Truncate ''users'' True,
              Insert_batch ''users'' users_insert (replicate 1000 [''x'']) True,
              Insert_batch ''users'' users_insert (replicate 1000 [''x'']) True,
              Insert_batch ''users'' users_insert [[''x'']] False])"
    by (simp add: insert_data_def full_batches_world_def big_batches q Let_def)
  then have failed: "\<not> fst ?ins" by simp
  from data_copier_batches [where w = full_batches_world and t = "''users''" and trace = "[]"
      and rest = "[''orders'']"] pre_f tr_f failed
  have "replicate_data full_batches_world (''users'' # [''orders'']) [] = (False, snd ?ins)"
    by blast
  then have run_f: "replicate_data full_batches_world [''users'', ''orders''] [] =
     (False, [Truncate ''users'' True,
              Insert_batch ''users'' users_insert (replicate 1000 [''x'']) True,
              Insert_batch ''users'' users_insert (replicate 1000 [''x'']) True,
              Insert_batch ''users'' users_insert [[''x'']] False])"
    by (simp only: ins snd_conv)
  have join: "replicate 1000 [''x''] @ replicate 1000 [''x''] = replicate 2000 [''x'']"
    by (simp add: replicate_add [symmetric])
  have "committed_rows ''users''
          [Truncate ''users'' True,
           Insert_batch ''users'' users_insert (replicate 1000 [''x'']) True,
           Insert_batch ''users'' users_insert (replicate 1000 [''x'']) True,
           Insert_batch ''users'' users_insert [[''x'']] False] =
        replicate 1000 [''x''] @ replicate 1000 [''x'']"
    by (simp add: committed_rows_def)
  then have rows_f:
    "committed_rows ''users'' (snd (replicate_data full_batches_world [''users'', ''orders''] [])) =
       replicate 2000 [''x'']"
    unfolding run_f snd_conv join .
  from run_a rows_a' run_f rows_f show ?thesis by (intro conjI)
qed

text \<open>
  Claim C10. A table that does not exist in the source, or does not exist in the target,
  adds one warning to the trace and nothing else: it is neither cleared nor copied, and
  the rows of every table are as before. The pass goes on with the remaining tables, and
  a run over this table alone returns \<open>True\<close>.
\<close>

theorem missing_table_skipped:
  assumes "\<not> src_exists w t \<or> \<not> tgt_exists w trace t"
  shows "\<exists>warn \<in> {Not_in_source t, Not_in_target t}.
           replicate_table w t trace = (True, trace @ [Warning warn]) \<and>
           replicate_data w (t # rest) trace = replicate_data w rest (trace @ [Warning warn]) \<and>
           replicate_data w [t] trace = (True, trace @ [Warning warn]) \<and>
           (\<forall>t'. committed_rows t' (trace @ [Warning warn]) = committed_rows t' trace)"
proof -
  define warn where "warn = (if \<not> src_exists w t then Not_in_source t else Not_in_target t)"
  have step: "replicate_table w t trace = (True, trace @ [Warning warn])"
    using assms by (auto simp: replicate_table_def warn_def)
  have "warn \<in> {Not_in_source t, Not_in_target t}"
    by (simp add: warn_def)
  moreover have "replicate_data w (t # rest) trace = replicate_data w rest (trace @ [Warning warn])"
    by (simp add: step)
  moreover have "replicate_data w [t] trace = (True, trace @ [Warning warn])"
    by (simp add: step)
  moreover have "\<forall>t'. committed_rows t' (trace @ [Warning warn]) = committed_rows t' trace"
    by (simp add: committed_rows_append)
  ultimately show ?thesis using step by blast
qed

theorem missing_table_skipped_witness:
  "replicate_data quiet_world [''ghost''] [] = (True, [Warning (Not_in_source ''ghost'')])"
proof -
  have h: "\<not> src_exists quiet_world ''ghost'' \<or> \<not> tgt_exists quiet_world [] ''ghost''"
    by (simp add: quiet_world_def)
  from missing_table_skipped [OF h, of "[]"]
  obtain warn where "warn \<in> {Not_in_source ''ghost'', Not_in_target ''ghost''}"
    and r: "replicate_data quiet_world [''ghost''] [] = (True, [] @ [Warning warn])"
    and s: "replicate_table quiet_world ''ghost'' [] = (True, [] @ [Warning warn])"
    by blast
  have "replicate_table quiet_world ''ghost'' [] = (True, [Warning (Not_in_source ''ghost'')])"
    by code_simp
  with s have "warn = Not_in_source ''ghost''" by simp
  with r show ?thesis by simp
qed

end
